theory Spec2Isabelle
  imports Main
begin

section \<open>The statement tree of a module file\<close>

text \<open>
  The functions of package \<open>bzlmod\<close> inspect values of the interface type
  \<open>build.Expr\<close> by type assertion.  Only the node types they look at are
  kept as constructors of their own: \<open>*build.Ident\<close>, \<open>*build.StringExpr\<close>,
  \<open>*build.AssignExpr\<close>, \<open>*build.CallExpr\<close> and \<open>*build.DotExpr\<close>; every other
  node type is an \<open>OtherExpr\<close>.  Of a call the fields \<open>X\<close>, \<open>List\<close> and
  \<open>Pos.Byte\<close> (the promoted position of the closing parenthesis) are the ones
  the package reads or writes; comments and layout fields are left out.
\<close>

datatype Expr =
    Ident (Name: string)
  | StringExpr (Value: string)
  | AssignExpr (LHS: Expr) (Op: string) (RHS: Expr)
  | Call CallExpr
  | DotExpr Expr string
  | OtherExpr string
and CallExpr =
    CallExpr (X: Expr) (List: "Expr list") (Pos_Byte: int)

section \<open>Recognising \<open>use_extension\<close> assignments and tag calls\<close>

text \<open>
  \<open>parseBooleanKeywordArg\<close>: a keyword argument of type bool that defaults
  to False.  Any right-hand side other than the identifier \<open>False\<close> counts
  as True.
\<close>

definition parseBooleanKeywordArg :: "Expr \<Rightarrow> string \<Rightarrow> bool" where
  "parseBooleanKeywordArg arg name =
     (case arg of
        AssignExpr lhs op rhs \<Rightarrow>
          (case lhs of
             Ident argName \<Rightarrow>
               if argName \<noteq> name then False
               else (case rhs of
                       Ident argValue \<Rightarrow> if argValue = ''False'' then False else True
                     | _ \<Rightarrow> True)
           | _ \<Rightarrow> False)
      | _ \<Rightarrow> False)"

text \<open>
  \<open>parseUseExtension\<close> returns the five named results
  \<open>(proxy, bzlFile, name, dev, isolate)\<close>; every early \<open>return\<close> of the
  source hands back their zero values.
\<close>

definition noUseExtension :: "string \<times> string \<times> string \<times> bool \<times> bool" where
  "noUseExtension = ('''', '''', '''', False, False)"

definition parseUseExtension :: "Expr \<Rightarrow> string \<times> string \<times> string \<times> bool \<times> bool" where
  "parseUseExtension stmt =
     (case stmt of
        AssignExpr lhs op rhs \<Rightarrow>
          (case lhs of
             Ident proxy \<Rightarrow>
               (case rhs of
                  Call call \<Rightarrow>
                    (case X call of
                       Ident fn \<Rightarrow>
                         if fn \<noteq> ''use_extension'' then noUseExtension
                         else if length (List call) < 2 then noUseExtension
                         else (case List call ! 0 of
                                 StringExpr bzlFile \<Rightarrow>
                                   (case List call ! 1 of
                                      StringExpr name \<Rightarrow>
                                        (let (dev, isolate) =
                                               fold (\<lambda>arg (dev, isolate).
                                                       (dev \<or> parseBooleanKeywordArg arg ''dev_dependency'',
                                                        isolate \<or> parseBooleanKeywordArg arg ''isolate''))
                                                    (drop 2 (List call)) (False, False)
                                         in (proxy, bzlFile, name, dev, isolate))
                                    | _ \<Rightarrow> noUseExtension)
                               | _ \<Rightarrow> noUseExtension)
                     | _ \<Rightarrow> noUseExtension)
                | _ \<Rightarrow> noUseExtension)
           | _ \<Rightarrow> noUseExtension)
      | _ \<Rightarrow> noUseExtension)"

definition parseTag :: "Expr \<Rightarrow> string" where
  "parseTag stmt =
     (case stmt of
        Call call \<Rightarrow>
          (case X call of
             DotExpr x tagName \<Rightarrow> (case x of Ident n \<Rightarrow> n | _ \<Rightarrow> '''')
           | _ \<Rightarrow> '''')
      | _ \<Rightarrow> '''')"

section \<open>Files, rules and labels\<close>

text \<open>
  A \<open>build.File\<close> with the fields the package uses.  The record is
  polymorphic in the representation of \<open>Stmt\<close>: the scanning functions,
  which only read the statements, work on the list of statements the slice
  holds (\<open>File\<close>), while \<open>NewUseRepo\<close>, which builds a slice with
  \<open>append\<close>, works on the slice header itself (\<open>File_mem\<close>, below).
\<close>

datatype FileType = TypeDefault | TypeBuild | TypeWorkspace | TypeBzl | TypeModule

record 's File_of =
  Path :: string
  Stmt :: 's
  Type :: FileType

type_synonym File = "Expr list File_of"

text \<open>\<open>build.Rule\<close>; \<open>RCall\<close> is its field \<open>Call\<close>.\<close>

record Rule =
  RCall :: CallExpr
  ImplicitName :: string

text \<open>\<open>labels.Label\<close>.\<close>

record Label =
  Repository :: string
  Package :: string
  Target :: string

text \<open>
  The methods of \<open>build.File\<close> and \<open>build.Rule\<close>, the label parser of
  package \<open>labels\<close> and \<open>path.Join\<close> are collaborators whose code is
  outside this package.  Every function that calls one of them takes the
  record of collaborators as its first argument, and every general theorem
  below holds for all collaborators.
\<close>

record collab =
  File_Rules :: "File \<Rightarrow> string \<Rightarrow> Rule list"
  Rule_Kind :: "Rule \<Rightarrow> string"
  Rule_ExplicitName :: "Rule \<Rightarrow> string"
  Rule_AttrString :: "Rule \<Rightarrow> string \<Rightarrow> string"
  labels_ParseRelative :: "string \<Rightarrow> string \<Rightarrow> Label"
  labels_Parse :: "string \<Rightarrow> Label"
  Label_Format :: "Label \<Rightarrow> string"
  path_Join :: "string \<Rightarrow> string \<Rightarrow> string"

definition getApparentModuleName :: "collab \<Rightarrow> File \<Rightarrow> string" where
  "getApparentModuleName D f =
     fold (\<lambda>module apparentName.
             let repoName = Rule_AttrString D module ''repo_name'' in
             if repoName \<noteq> '''' then repoName
             else let name = Rule_AttrString D module ''name'' in
                  if name \<noteq> '''' then name else apparentName)
          (File_Rules D f ''module'') ''''"

definition normalizeLabelString :: "collab \<Rightarrow> string \<Rightarrow> string \<Rightarrow> string" where
  "normalizeLabelString D rawLabel apparentModuleName =
     (let label = labels_ParseRelative D rawLabel '''' in
      Label_Format D (if Repository label = ''''
                      then label\<lparr>Repository := apparentModuleName\<rparr>
                      else label))"

section \<open>Proxies of an extension usage\<close>

definition Proxies :: "collab \<Rightarrow> File \<Rightarrow> string \<Rightarrow> string \<Rightarrow> bool \<Rightarrow> string list" where
  "Proxies D f rawExtBzlFile extName dev =
     (let apparentModuleName = getApparentModuleName D f;
          extBzlFile = normalizeLabelString D rawExtBzlFile apparentModuleName
      in fold (\<lambda>stmt proxies.
                 case parseUseExtension stmt of
                   (proxy, rawBzlFile, name, isDev, isIsolated) \<Rightarrow>
                     if proxy = '''' \<or> isDev \<noteq> dev \<or> isIsolated then proxies
                     else let bzlFile = normalizeLabelString D rawBzlFile apparentModuleName in
                          if bzlFile = extBzlFile \<and> name = extName
                          then proxies @ [proxy] else proxies)
              (Stmt f) [])"

text \<open>
  The loop of \<open>AllProxies\<close> returns from inside its body, so it is a
  recursion over the statements still to be looked at.  A \<open>nil\<close> slice of
  strings is the empty list.
\<close>

fun AllProxies_from :: "collab \<Rightarrow> File \<Rightarrow> string \<Rightarrow> Expr list \<Rightarrow> string list" where
  "AllProxies_from D f proxy [] = []"
| "AllProxies_from D f proxy (stmt # rest) =
     (case parseUseExtension stmt of
        (proxyCandidate, rawBzlFile, name, isDev, isIsolated) \<Rightarrow>
          if proxyCandidate = proxy
          then (if isIsolated then [proxy] else Proxies D f rawBzlFile name isDev)
          else AllProxies_from D f proxy rest)"

definition AllProxies :: "collab \<Rightarrow> File \<Rightarrow> string \<Rightarrow> string list" where
  "AllProxies D f proxy = AllProxies_from D f proxy (Stmt f)"

section \<open>The last usage of a proxy\<close>

text \<open>
  \<open>lastProxyUsage\<close>: the set \<open>proxiesSet\<close> is \<open>set proxies\<close>; the loop runs
  over the statements with their indices.
\<close>

definition lastProxyUsage_step :: "string list \<Rightarrow> nat \<times> Expr \<Rightarrow> int \<times> string \<Rightarrow> int \<times> string" where
  "lastProxyUsage_step proxies = (\<lambda>(i, stmt) (lastUsage, lastProxy).
     case parseUseExtension stmt of
       (proxy, _, _, _, _) \<Rightarrow>
         if proxy \<noteq> '''' \<and> proxy \<in> set proxies then (int i, proxy)
         else let proxy = parseTag stmt in
              if proxy \<noteq> '''' \<and> proxy \<in> set proxies then (int i, proxy)
              else (lastUsage, lastProxy))"

definition lastProxyUsage :: "File \<Rightarrow> string list \<Rightarrow> int \<times> string" where
  "lastProxyUsage f proxies =
     fold (lastProxyUsage_step proxies) (enumerate 0 (Stmt f)) (- 1, '''')"

section \<open>Slices and \<open>NewUseRepo\<close>\<close>

text \<open>
  \<open>NewUseRepo\<close> builds the new statement sequence with \<open>append\<close> on a
  prefix of \<open>f.Stmt\<close>, so what it does to the caller's file depends on how
  Go slices share their backing arrays.  A slice header is the address of a
  backing array, the offset of its first element there, its length and its
  capacity; the store maps addresses to the contents of the arrays and knows
  the next unused address.
\<close>

record slice =
  base :: nat
  start :: nat
  len :: nat
  cap :: nat

record heap =
  arrays :: "nat \<Rightarrow> Expr list"
  fresh :: nat

type_synonym File_mem = "slice File_of"

text \<open>The elements a slice shows, in order.\<close>

definition slice_read :: "heap \<Rightarrow> slice \<Rightarrow> Expr list" where
  "slice_read h s = take (len s) (drop (start s) (arrays h (base s)))"

text \<open>The file a \<open>*build.File\<close> stands for in a given store.\<close>

definition load :: "heap \<Rightarrow> File_mem \<Rightarrow> File" where
  "load h f = \<lparr>Path = Path f, Stmt = slice_read h (Stmt f), Type = Type f\<rparr>"

text \<open>
  The slice expressions \<open>s[:j]\<close> and \<open>s[i:]\<close>.  Both share the array of
  \<open>s\<close>; \<open>s[:j]\<close> keeps the capacity of \<open>s\<close>.  Out of range they panic
  (\<open>None\<close>).
\<close>

definition slice_upto :: "slice \<Rightarrow> int \<Rightarrow> slice option" where
  "slice_upto s j = (if 0 \<le> j \<and> nat j \<le> cap s then Some (s\<lparr>len := nat j\<rparr>) else None)"

definition slice_from :: "slice \<Rightarrow> int \<Rightarrow> slice option" where
  "slice_from s i =
     (if 0 \<le> i \<and> nat i \<le> len s
      then Some \<lparr>base = base s, start = start s + nat i, len = len s - nat i, cap = cap s - nat i\<rparr>
      else None)"

text \<open>
  A composite literal \<open>[]build.Expr{...}\<close> allocates an array that holds
  exactly the listed elements.
\<close>

definition slice_literal :: "heap \<Rightarrow> Expr list \<Rightarrow> heap \<times> slice" where
  "slice_literal h xs =
     (h\<lparr>arrays := (arrays h)(fresh h := xs), fresh := Suc (fresh h)\<rparr>,
      \<lparr>base = fresh h, start = 0, len = length xs, cap = length xs\<rparr>)"

text \<open>
  \<open>append(s, xs...)\<close>.  When the capacity of \<open>s\<close> suffices, the new elements
  are written into the array of \<open>s\<close>, right behind its last element, and the
  result shares that array.  Otherwise a new array is allocated and the
  elements of \<open>s\<close> and \<open>xs\<close> copied there; the capacity the runtime gives the
  new array beyond what is needed is not observed by this package and is taken
  to be none.
\<close>

definition overwrite :: "Expr list \<Rightarrow> nat \<Rightarrow> Expr list \<Rightarrow> Expr list" where
  "overwrite a i xs = take i a @ xs @ drop (i + length xs) a"

definition go_append :: "heap \<Rightarrow> slice \<Rightarrow> Expr list \<Rightarrow> heap \<times> slice" where
  "go_append h s xs =
     (if len s + length xs \<le> cap s
      then (h\<lparr>arrays := (arrays h)(base s := overwrite (arrays h (base s)) (start s + len s) xs)\<rparr>,
            s\<lparr>len := len s + length xs\<rparr>)
      else slice_literal h (slice_read h s @ xs))"

text \<open>
  \<open>NewUseRepo\<close> returns the store after the call, the returned file and the
  returned call (\<open>None\<close> for \<open>nil\<close>); the outer \<open>None\<close> is a run-time panic of
  a slice expression.  The new call has the zero position.
\<close>

definition NewUseRepo ::
  "heap \<Rightarrow> File_mem \<Rightarrow> string list \<Rightarrow> (heap \<times> File_mem \<times> CallExpr option) option" where
  "NewUseRepo h f proxies =
     (case lastProxyUsage (load h f) proxies of
        (lastUsage, proxy) \<Rightarrow>
          if lastUsage = - 1 then Some (h, f, None)
          else
            let useRepo = CallExpr (Ident ''use_repo'') [Ident proxy] 0 in
            case slice_upto (Stmt f) (lastUsage + 1) of
              None \<Rightarrow> None
            | Some front \<Rightarrow>
                (case slice_literal h [Call useRepo] of
                   (h1, lit) \<Rightarrow>
                     (case slice_from (Stmt f) (lastUsage + 1) of
                        None \<Rightarrow> None
                      | Some tail \<Rightarrow>
                          (case go_append h1 lit (slice_read h1 tail) of
                             (h2, inner) \<Rightarrow>
                               (case go_append h2 front (slice_read h2 inner) of
                                  (h3, stmt) \<Rightarrow>
                                    Some (h3,
                                          \<lparr>Path = Path f, Stmt = stmt, Type = TypeModule\<rparr>,
                                          Some useRepo))))))"

section \<open>Adding and removing repositories\<close>

text \<open>
  \<open>AddRepoUsages\<close> and \<open>RemoveRepoUsages\<close> get a slice of pointers to calls
  and assign to the field \<open>List\<close> of the calls pointed to.  The calls live in
  a store indexed by address, and \<open>useRepos\<close> is the list of addresses, so
  that the same call may occur twice; no pointer in \<open>useRepos\<close> is \<open>nil\<close>.  The
  argument list of a call is a value of the call: argument lists of different
  calls are taken not to share a backing array.
\<close>

type_synonym calls = "nat \<Rightarrow> CallExpr"

datatype panic = Panic string

definition set_List :: "CallExpr \<Rightarrow> Expr list \<Rightarrow> CallExpr" where
  "set_List c l = CallExpr (X c) l (Pos_Byte c)"

definition repoFromUseRepoArg :: "Expr \<Rightarrow> string" where
  "repoFromUseRepoArg arg =
     (case arg of
        StringExpr v \<Rightarrow> v
      | AssignExpr lhs op rhs \<Rightarrow> (case rhs of StringExpr repo \<Rightarrow> repo | _ \<Rightarrow> '''')
      | _ \<Rightarrow> '''')"

text \<open>\<open>getLastUseRepo\<close>; \<open>None\<close> is the \<open>nil\<close> pointer.\<close>

definition getLastUseRepo :: "calls \<Rightarrow> nat list \<Rightarrow> nat option" where
  "getLastUseRepo st useRepos =
     fold (\<lambda>useRepo lastUseRepo.
             case lastUseRepo of
               None \<Rightarrow> Some useRepo
             | Some l \<Rightarrow> if Pos_Byte (st useRepo) > Pos_Byte (st l) then Some useRepo else Some l)
          useRepos None"

text \<open>
  The set \<open>seen\<close> that \<open>AddRepoUsages\<close> builds before it appends.  In
  \<open>AddRepoUsages\<close> the pointer \<open>lastUseRepo\<close> is not \<open>nil\<close>, since \<open>useRepos\<close>
  has an element where it is computed; the branch for \<open>nil\<close> is there for
  completeness.
\<close>

definition seenRepos :: "calls \<Rightarrow> nat list \<Rightarrow> string set" where
  "seenRepos st useRepos =
     fold (\<lambda>useRepo seen.
             if length (List (st useRepo)) = 0 then seen
             else fold (\<lambda>arg seen. insert (repoFromUseRepoArg arg) seen)
                       (drop 1 (List (st useRepo))) seen)
          useRepos {}"

definition AddRepoUsages :: "calls \<Rightarrow> nat list \<Rightarrow> string list \<Rightarrow> panic + calls" where
  "AddRepoUsages st useRepos repos =
     (if length repos = 0 then Inr st
      else if length useRepos = 0 then Inl (Panic ''useRepos must not be empty'')
      else
        let seen = seenRepos st useRepos in
        case getLastUseRepo st useRepos of
          None \<Rightarrow> Inl (Panic ''nil pointer dereference'')
        | Some lastUseRepo \<Rightarrow>
            Inr (fold (\<lambda>repo st.
                         if repo \<in> seen then st
                         else st(lastUseRepo :=
                                   set_List (st lastUseRepo)
                                            (List (st lastUseRepo) @ [StringExpr repo])))
                      repos st))"

text \<open>The body of the loop of \<open>RemoveRepoUsages\<close> over \<open>useRepos\<close>.\<close>

definition RemoveRepoUsages_step :: "string set \<Rightarrow> nat \<Rightarrow> calls \<Rightarrow> calls" where
  "RemoveRepoUsages_step toRemove useRepo st =
     (if length (List (st useRepo)) = 0 then st
      else
        let args = fold (\<lambda>arg args.
                           if repoFromUseRepoArg arg \<notin> toRemove then args @ [arg] else args)
                        (drop 1 (List (st useRepo))) []
        in st(useRepo := set_List (st useRepo) (take 1 (List (st useRepo)) @ args)))"

definition RemoveRepoUsages :: "calls \<Rightarrow> nat list \<Rightarrow> string list \<Rightarrow> calls" where
  "RemoveRepoUsages st useRepos repos =
     (if length useRepos = 0 \<or> length repos = 0 then st
      else
        let toRemove = set repos in
        fold (RemoveRepoUsages_step toRemove) useRepos st)"

section \<open>Apparent names across included files\<close>

definition collectApparentNamesAndIncludes_step ::
  "collab \<Rightarrow> Rule \<Rightarrow> (string \<rightharpoonup> string) \<times> string list \<Rightarrow> (string \<rightharpoonup> string) \<times> string list" where
  "collectApparentNamesAndIncludes_step D dep = (\<lambda>(apparentNames, includeLabels).
     if Rule_ExplicitName D dep = '''' then
       (case X (RCall dep) of
          Ident n \<Rightarrow>
            if n \<noteq> ''include'' then (apparentNames, includeLabels)
            else if length (List (RCall dep)) \<noteq> 1 then (apparentNames, includeLabels)
            else (case List (RCall dep) ! 0 of
                    StringExpr v \<Rightarrow> (apparentNames, includeLabels @ [v])
                  | _ \<Rightarrow> (apparentNames, includeLabels))
        | _ \<Rightarrow> (apparentNames, includeLabels))
     else if Rule_Kind D dep \<noteq> ''module'' \<and> Rule_Kind D dep \<noteq> ''bazel_dep''
     then (apparentNames, includeLabels)
     else
       let name = Rule_AttrString D dep ''name'' in
       if name \<noteq> '''' then
         (let repoName = Rule_AttrString D dep ''repo_name'' in
          if repoName \<noteq> '''' then (apparentNames(name \<mapsto> repoName), includeLabels)
          else (apparentNames(name \<mapsto> name), includeLabels))
       else (apparentNames, includeLabels))"

definition collectApparentNamesAndIncludes ::
  "collab \<Rightarrow> File \<Rightarrow> (string \<rightharpoonup> string) \<times> string list" where
  "collectApparentNamesAndIncludes D f =
     fold (collectApparentNamesAndIncludes_step D) (File_Rules D f '''') (Map.empty, [])"

text \<open>The path \<open>path.Join(l.Package, l.Target)\<close> of an include label.\<close>

definition includePath :: "collab \<Rightarrow> string \<Rightarrow> string" where
  "includePath D includeLabel =
     (let l = labels_Parse D includeLabel in path_Join D (Package l) (Target l))"

text \<open>
  The work-queue loop of \<open>collectApparentNames\<close>.  The reader is a function
  of the path; the loop asks it for each path once at most.  Its state is the three
  variables of the source, \<open>apparentNames\<close>, \<open>seenFiles\<close> and
  \<open>filesToProcess\<close>, and the list \<open>reads\<close> of the paths \<open>fileReader\<close> has been
  called with so far, in order.  Nothing bounds the loop, so not returning is
  the value \<open>None\<close>; a returned \<open>nil\<close> map is \<open>Some (None, reads)\<close>.  Merging
  \<open>names\<close> into \<open>apparentNames\<close> key by key is \<open>apparentNames ++ names\<close>.
\<close>

partial_function (option) collectApparentNames_loop ::
  "collab \<Rightarrow> (string \<Rightarrow> File option) \<Rightarrow> (string \<rightharpoonup> string) \<Rightarrow> string set \<Rightarrow> string list
     \<Rightarrow> string list \<Rightarrow> ((string \<rightharpoonup> string) option \<times> string list) option" where
  "collectApparentNames_loop D fileReader apparentNames seenFiles filesToProcess reads =
     (case filesToProcess of
        [] \<Rightarrow> Some (Some apparentNames, reads)
      | f # rest \<Rightarrow>
          if f \<in> seenFiles
          then collectApparentNames_loop D fileReader apparentNames seenFiles rest reads
          else
            (case fileReader f of
               None \<Rightarrow> Some (None, reads @ [f])
             | Some bf \<Rightarrow>
                 (case collectApparentNamesAndIncludes D bf of
                    (names, includeLabels) \<Rightarrow>
                      collectApparentNames_loop D fileReader
                        (apparentNames ++ names) (insert f seenFiles)
                        (rest @ map (includePath D) includeLabels) (reads @ [f]))))"

declare collectApparentNames_loop.simps [code]

definition collectApparentNames_trace ::
  "collab \<Rightarrow> (string \<Rightarrow> File option) \<Rightarrow> string
     \<Rightarrow> ((string \<rightharpoonup> string) option \<times> string list) option" where
  "collectApparentNames_trace D fileReader relPath =
     collectApparentNames_loop D fileReader Map.empty {} [relPath] []"

definition collectApparentNames ::
  "collab \<Rightarrow> (string \<Rightarrow> File option) \<Rightarrow> string \<Rightarrow> (string \<rightharpoonup> string) option option" where
  "collectApparentNames D fileReader relPath =
     map_option fst (collectApparentNames_trace D fileReader relPath)"

text \<open>
  The paths the traversal can get to: the root, and every path included by
  a file that the reader has for a path already reached.
\<close>

inductive reached :: "collab \<Rightarrow> (string \<Rightarrow> File option) \<Rightarrow> string \<Rightarrow> string \<Rightarrow> bool"
  for D fileReader relPath where
  root: "reached D fileReader relPath relPath"
| incl: "reached D fileReader relPath p \<Longrightarrow> fileReader p = Some bf \<Longrightarrow>
            l \<in> set (snd (collectApparentNamesAndIncludes D bf)) \<Longrightarrow>
            reached D fileReader relPath (includePath D l)"

section \<open>Notions used in the statements\<close>

text \<open>
  The proxy a statement uses: the left-hand side of an assignment of the
  shape \<open>proxy = use_extension("file", "name", ...)\<close>, or the receiver of a tag
  call \<open>proxy.tag(...)\<close>.  The empty string is the value \<open>parseUseExtension\<close>
  and \<open>parseTag\<close> return for "no proxy", and no identifier of a parsed file has
  the empty name, so an empty name is not the name of a proxy.
\<close>

fun usedProxy :: "Expr \<Rightarrow> string option" where
  "usedProxy (AssignExpr (Ident proxy) op
       (Call (CallExpr (Ident fn) (StringExpr bzlFile # StringExpr name # args) pos))) =
     (if fn = ''use_extension'' \<and> proxy \<noteq> '''' then Some proxy else None)"
| "usedProxy (Call (CallExpr (DotExpr (Ident proxy) tagName) args pos)) =
     (if proxy \<noteq> '''' then Some proxy else None)"
| "usedProxy _ = None"

definition usesOneOf :: "string list \<Rightarrow> Expr \<Rightarrow> bool" where
  "usesOneOf proxies stmt =
     (case usedProxy stmt of Some p \<Rightarrow> p \<in> set proxies | None \<Rightarrow> False)"

text \<open>
  What holds of every slice of a running program: its array is allocated,
  its length is within its capacity, and its capacity within the array.
\<close>

definition slice_ok :: "heap \<Rightarrow> slice \<Rightarrow> bool" where
  "slice_ok h s \<longleftrightarrow>
     base s < fresh h \<and> len s \<le> cap s \<and> start s + cap s \<le> length (arrays h (base s))"

text \<open>
  The states the loop of \<open>collectApparentNames\<close> is in: the root is seen or
  queued, the reader has every file that is seen, and what a seen file includes
  is seen or queued.
\<close>

definition traversal_state ::
  "collab \<Rightarrow> (string \<Rightarrow> File option) \<Rightarrow> string \<Rightarrow> string set \<Rightarrow> string list \<Rightarrow> bool" where
  "traversal_state D fr relPath seen q \<longleftrightarrow>
     relPath \<in> seen \<union> set q \<and>
     (\<forall>s\<in>seen. \<exists>bf. fr s = Some bf \<and>
        (\<forall>l\<in>set (snd (collectApparentNamesAndIncludes D bf)). includePath D l \<in> seen \<union> set q))"

text \<open>
  \<open>Proxies\<close> as a filter: the proxies, in file order, of the statements that
  are \<open>use_extension\<close> assignments with the given flag \<open>dev\<close>, not isolated, and
  with the given extension file, up to normalisation, and extension name.
\<close>

definition sameUsage :: "collab \<Rightarrow> File \<Rightarrow> string \<Rightarrow> string \<Rightarrow> bool \<Rightarrow> Expr \<Rightarrow> bool" where
  "sameUsage D f rawExtBzlFile extName dev stmt =
     (case parseUseExtension stmt of
        (proxy, rawBzlFile, name, isDev, isIsolated) \<Rightarrow>
          proxy \<noteq> '''' \<and> isDev = dev \<and> \<not> isIsolated \<and>
          normalizeLabelString D rawBzlFile (getApparentModuleName D f) =
            normalizeLabelString D rawExtBzlFile (getApparentModuleName D f) \<and>
          name = extName)"

section \<open>Example values\<close>

text \<open>
  A store of calls: \<open>use_repo(ext, "a")\<close> at address 0, ending at byte 40,
  \<open>use_repo(ext, my_b = "b")\<close> at address 1, ending at byte 80, and the call
  \<open>use_repo()\<close> without arguments everywhere else.
\<close>

definition example_calls :: calls where
  "example_calls =
     (\<lambda>a. CallExpr (Ident ''use_repo'') [] 0)
       (0 := CallExpr (Ident ''use_repo'') [Ident ''ext'', StringExpr ''a''] 40,
        1 := CallExpr (Ident ''use_repo'')
               [Ident ''ext'', AssignExpr (Ident ''my_b'') ''='' (StringExpr ''b'')] 80)"

text \<open>
  Three statements, \<open>ext = use_extension("//:e.bzl", "e")\<close>, \<open>ext.tag()\<close> and
  \<open>bazel_dep(name = "rules_go")\<close>, in an array of four elements at address 0,
  whose last element \<open>spare\<close> is whatever the unused place of the array holds.
  \<open>example_file\<close> has the three statements in a slice of capacity 4, which is
  what appending three statements one by one to an empty slice gives, and
  \<open>example_file_full\<close> has them in a slice of capacity 3.
\<close>

definition example_stmts :: "Expr list" where
  "example_stmts =
     [AssignExpr (Ident ''ext'') ''=''
        (Call (CallExpr (Ident ''use_extension'') [StringExpr ''//:e.bzl'', StringExpr ''e''] 40)),
      Call (CallExpr (DotExpr (Ident ''ext'') ''tag'') [] 60),
      Call (CallExpr (Ident ''bazel_dep'')
              [AssignExpr (Ident ''name'') ''='' (StringExpr ''rules_go'')] 100)]"

definition example_heap :: "Expr \<Rightarrow> heap" where
  "example_heap spare = \<lparr>arrays = (\<lambda>a. [])(0 := example_stmts @ [spare]), fresh = 1\<rparr>"

definition example_file :: File_mem where
  "example_file = \<lparr>Path = ''MODULE.bazel'',
                    Stmt = \<lparr>base = 0, start = 0, len = 3, cap = 4\<rparr>, Type = TypeModule\<rparr>"

definition example_file_full :: File_mem where
  "example_file_full = \<lparr>Path = ''MODULE.bazel'',
                         Stmt = \<lparr>base = 0, start = 0, len = 3, cap = 3\<rparr>, Type = TypeModule\<rparr>"

text \<open>
  The file \<open>module(name = "m")\<close>, \<open>x = use_extension("", "")\<close>.
\<close>

definition empty_proxy_file :: File where
  "empty_proxy_file =
     \<lparr>Path = ''MODULE.bazel'',
      Stmt = [Call (CallExpr (Ident ''module'') [AssignExpr (Ident ''name'') ''='' (StringExpr ''m'')] 20),
              AssignExpr (Ident ''x'') ''=''
                (Call (CallExpr (Ident ''use_extension'') [StringExpr '''', StringExpr ''''] 50))],
      Type = TypeModule\<rparr>"

text \<open>
  Modelled from the spec: the methods \<open>Rules\<close> of \<open>build.File\<close> and \<open>Kind\<close>,
  \<open>ExplicitName\<close> and \<open>AttrString\<close> of \<open>build.Rule\<close>, the functions \<open>Parse\<close>,
  \<open>ParseRelative\<close> and \<open>Format\<close> of package \<open>labels\<close>, and \<open>path.Join\<close>, none
  of which is code of this package.  These stand-ins serve the examples only;
  no general theorem depends on them.  The rules of a file are its top-level
  calls, the kind of a rule is the name it calls, a string attribute is the
  right-hand side of the first keyword argument of that name when that is a
  string, and the explicit name of a rule is its attribute \<open>name\<close>.  Labels
  follow the label grammar of the external interfaces: \<open>@repo//pkg:target\<close>,
  \<open>//pkg:target\<close>, \<open>:target\<close> and a bare target; the canonical spelling is
  \<open>@repo//pkg:target\<close>; joining a package and a target puts a slash between
  them when neither is empty.
\<close>

text \<open>Modelled from the spec: \<open>Rule.Kind\<close>, the name the rule calls.\<close>

definition example_Kind :: "Rule \<Rightarrow> string" where
  "example_Kind r = (case X (RCall r) of Ident n \<Rightarrow> n | _ \<Rightarrow> '''')"

text \<open>
  Modelled from the spec: \<open>File.Rules\<close>, the top-level calls of the given kind,
  all of them for the empty kind.
\<close>

definition example_Rules :: "File \<Rightarrow> string \<Rightarrow> Rule list" where
  "example_Rules f kind =
     filter (\<lambda>r. kind = '''' \<or> example_Kind r = kind)
       (List.map_filter
          (\<lambda>stmt. case stmt of Call c \<Rightarrow> Some \<lparr>RCall = c, ImplicitName = ''''\<rparr> | _ \<Rightarrow> None)
          (Stmt f))"

text \<open>
  Modelled from the spec: \<open>Rule.AttrString\<close>, the string a keyword argument
  of the rule is set to, or the empty string.
\<close>

definition example_AttrString :: "Rule \<Rightarrow> string \<Rightarrow> string" where
  "example_AttrString r key =
     (case List.find (\<lambda>arg. case arg of AssignExpr (Ident k) op rhs \<Rightarrow> k = key | _ \<Rightarrow> False)
                     (List (RCall r)) of
        Some (AssignExpr lhs op (StringExpr v)) \<Rightarrow> v
      | _ \<Rightarrow> '''')"

text \<open>
  Modelled from the spec: \<open>labels.ParseRelative\<close>, for the four spellings of
  a label; \<open>labels.Parse\<close> is \<open>ParseRelative\<close> with the empty package.
\<close>

definition example_ParseRelative :: "string \<Rightarrow> string \<Rightarrow> Label" where
  "example_ParseRelative input pkg =
     (let (repo, rest) =
            (if take 1 input = ''@''
             then (takeWhile (\<lambda>c. c \<noteq> CHR ''/'') (drop 1 input),
                   dropWhile (\<lambda>c. c \<noteq> CHR ''/'') (drop 1 input))
             else ('''', input))
      in if take 2 rest = ''//''
         then let body = drop 2 rest;
                  p = takeWhile (\<lambda>c. c \<noteq> CHR '':'') body
              in \<lparr>Repository = repo, Package = p,
                  Target = (if CHR '':'' \<in> set body
                            then drop 1 (dropWhile (\<lambda>c. c \<noteq> CHR '':'') body)
                            else rev (takeWhile (\<lambda>c. c \<noteq> CHR ''/'') (rev p)))\<rparr>
         else \<lparr>Repository = repo, Package = pkg,
               Target = (if take 1 rest = '':'' then drop 1 rest else rest)\<rparr>)"

text \<open>Modelled from the spec: \<open>Label.Format\<close>, the fully qualified spelling.\<close>

definition example_Format :: "Label \<Rightarrow> string" where
  "example_Format l = ''@'' @ Repository l @ ''//'' @ Package l @ '':'' @ Target l"

text \<open>Modelled from the spec: \<open>path.Join\<close> of a package and a target.\<close>

definition example_Join :: "string \<Rightarrow> string \<Rightarrow> string" where
  "example_Join a b = (if a = '''' then b else if b = '''' then a else a @ ''/'' @ b)"

text \<open>
  Modelled from the spec: the collaborators together; \<open>Rule.ExplicitName\<close> is
  the attribute \<open>name\<close>.
\<close>

definition example_collab :: collab where
  "example_collab =
     \<lparr>File_Rules = example_Rules,
      Rule_Kind = example_Kind,
      Rule_ExplicitName = (\<lambda>r. example_AttrString r ''name''),
      Rule_AttrString = example_AttrString,
      labels_ParseRelative = example_ParseRelative,
      labels_Parse = (\<lambda>input. example_ParseRelative input ''''),
      Label_Format = example_Format,
      path_Join = example_Join\<rparr>"

text \<open>
  Three fragment providers.  \<open>chain_reader\<close> has, for every path \<open>p\<close>, a
  file that includes \<open>p\<close> with an \<open>x\<close> appended.  \<open>cycle_reader\<close> has two
  files that include each other, and \<open>missing_reader\<close> one file that includes a
  file it does not have.
\<close>

definition chain_reader :: "string \<Rightarrow> File option" where
  "chain_reader p =
     Some \<lparr>Path = p,
           Stmt = [Call (CallExpr (Ident ''include'') [StringExpr (''//:'' @ p @ ''x'')] 0)],
           Type = TypeModule\<rparr>"

definition cycle_reader :: "string \<Rightarrow> File option" where
  "cycle_reader p =
     (if p = ''MODULE.bazel'' then
        Some \<lparr>Path = p,
              Stmt = [Call (CallExpr (Ident ''bazel_dep'')
                              [AssignExpr (Ident ''name'') ''='' (StringExpr ''rules_go''),
                               AssignExpr (Ident ''repo_name'') ''='' (StringExpr ''my_rules_go'')] 0),
                      Call (CallExpr (Ident ''include'') [StringExpr ''//:b.MODULE.bazel''] 0)],
              Type = TypeModule\<rparr>
      else if p = ''b.MODULE.bazel'' then
        Some \<lparr>Path = p,
              Stmt = [Call (CallExpr (Ident ''bazel_dep'')
                              [AssignExpr (Ident ''name'') ''='' (StringExpr ''rules_cc'')] 0),
                      Call (CallExpr (Ident ''include'') [StringExpr ''//:MODULE.bazel''] 0)],
              Type = TypeModule\<rparr>
      else None)"

definition missing_reader :: "string \<Rightarrow> File option" where
  "missing_reader p =
     (if p = ''MODULE.bazel'' then
        Some \<lparr>Path = p,
              Stmt = [Call (CallExpr (Ident ''bazel_dep'')
                              [AssignExpr (Ident ''name'') ''='' (StringExpr ''rules_go'')] 0),
                      Call (CallExpr (Ident ''include'') [StringExpr ''//:gone.MODULE.bazel''] 0)],
              Type = TypeModule\<rparr>
      else None)"

section \<open>Boolean keyword arguments of \<open>use_extension\<close>\<close>

lemma fold_flags:
  "fold (\<lambda>arg (dev, isolate). (dev \<or> P arg, isolate \<or> Q arg)) args (d, i) =
     (d \<or> (\<exists>a\<in>set args. P a), i \<or> (\<exists>a\<in>set args. Q a))"
  by (induction args arbitrary: d i) auto

lemma parseUseExtension_call:
  "parseUseExtension (AssignExpr (Ident proxy) op0
       (Call (CallExpr (Ident ''use_extension'') (StringExpr b # StringExpr n # args) pos))) =
     (proxy, b, n, (\<exists>a\<in>set args. parseBooleanKeywordArg a ''dev_dependency''),
                   (\<exists>a\<in>set args. parseBooleanKeywordArg a ''isolate''))"
  by (simp add: parseUseExtension_def fold_flags)

text \<open>
  Claim C7.  An argument of a \<open>use_extension\<close> call sets the flag \<open>name\<close>
  exactly when it is an assignment whose left-hand side is the identifier
  \<open>name\<close> and whose right-hand side is anything but the identifier \<open>False\<close>;
  the flags \<open>dev\<close> and \<open>isolate\<close> of the call are set when one of the arguments
  after the two positional ones sets them.
\<close>

theorem boolean_keyword_rule:
  "(parseBooleanKeywordArg arg name \<longleftrightarrow>
      (\<exists>op rhs. arg = AssignExpr (Ident name) op rhs \<and> rhs \<noteq> Ident ''False'')) \<and>
   parseUseExtension (AssignExpr (Ident proxy) op0
       (Call (CallExpr (Ident ''use_extension'') (StringExpr b # StringExpr n # args) pos))) =
     (proxy, b, n, (\<exists>a\<in>set args. parseBooleanKeywordArg a ''dev_dependency''),
                   (\<exists>a\<in>set args. parseBooleanKeywordArg a ''isolate''))"
  by (auto simp: parseUseExtension_call parseBooleanKeywordArg_def split: Expr.splits)

theorem boolean_keyword_rule_witness:
  "parseBooleanKeywordArg (AssignExpr (Ident ''isolate'') ''='' (Ident ''enabled'')) ''isolate'' \<and>
   \<not> parseBooleanKeywordArg (AssignExpr (Ident ''isolate'') ''='' (Ident ''False'')) ''isolate'' \<and>
   parseUseExtension (AssignExpr (Ident ''ext'') ''=''
       (Call (CallExpr (Ident ''use_extension'')
          [StringExpr ''//:e.bzl'', StringExpr ''e'',
           AssignExpr (Ident ''dev_dependency'') ''='' (Ident ''True''),
           AssignExpr (Ident ''isolate'') ''='' (Ident ''False'')] 0))) =
     (''ext'', ''//:e.bzl'', ''e'', True, False)"
  using boolean_keyword_rule [of "AssignExpr (Ident ''isolate'') ''='' (Ident ''enabled'')" "''isolate''"
          "''ext''" "''=''" "''//:e.bzl''" "''e''"
          "[AssignExpr (Ident ''dev_dependency'') ''='' (Ident ''True''),
            AssignExpr (Ident ''isolate'') ''='' (Ident ''False'')]" 0]
        boolean_keyword_rule [of "AssignExpr (Ident ''isolate'') ''='' (Ident ''False'')" "''isolate''"]
        boolean_keyword_rule [of "AssignExpr (Ident ''dev_dependency'') ''='' (Ident ''True'')" "''isolate''"]
        boolean_keyword_rule [of "AssignExpr (Ident ''dev_dependency'') ''='' (Ident ''True'')"
          "''dev_dependency''"]
  by simp

section \<open>Adding repositories\<close>

lemma set_List_sel [simp]:
  "List (set_List c l) = l" "X (set_List c l) = X c" "Pos_Byte (set_List c l) = Pos_Byte c"
  by (simp_all add: set_List_def)

lemma set_List_same [simp]: "set_List c (List c) = c"
  by (cases c) (simp add: set_List_def)

lemma set_List_twice [simp]: "set_List (set_List c k) l = set_List c l"
  by (simp add: set_List_def)

lemma fold_insert_repo:
  "fold (\<lambda>arg seen. insert (g arg) seen) xs S = S \<union> g ` set xs"
  by (induction xs arbitrary: S) auto

text \<open>
  The names \<open>seen\<close> holds: what \<open>repoFromUseRepoArg\<close> gives for the arguments
  behind the first one, over all the calls.
\<close>

lemma seenRepos_eq:
  "seenRepos st useRepos = (\<Union>a\<in>set useRepos. repoFromUseRepoArg ` set (tl (List (st a))))"
proof -
  have "fold (\<lambda>useRepo seen.
             if length (List (st useRepo)) = 0 then seen
             else fold (\<lambda>arg seen. insert (repoFromUseRepoArg arg) seen)
                       (drop 1 (List (st useRepo))) seen) as S
        = S \<union> (\<Union>a\<in>set as. repoFromUseRepoArg ` set (tl (List (st a))))" for as S
    by (induction as arbitrary: S) (auto simp: fold_insert_repo drop_Suc)
  then show ?thesis by (simp add: seenRepos_def)
qed

lemma getLastUseRepo_fold_Some:
  "\<exists>t. fold (\<lambda>useRepo lastUseRepo.
             case lastUseRepo of
               None \<Rightarrow> Some useRepo
             | Some l \<Rightarrow> if Pos_Byte (st useRepo) > Pos_Byte (st l) then Some useRepo else Some l)
          as (Some l) = Some t \<and> t \<in> insert l (set as)"
proof (induction as arbitrary: l)
  case Nil
  then show ?case by simp
next
  case (Cons a as)
  show ?case
    using Cons.IH[of a] Cons.IH[of l] by (cases "Pos_Byte (st a) > Pos_Byte (st l)") auto
qed

lemma getLastUseRepo_mem:
  "useRepos \<noteq> [] \<Longrightarrow> \<exists>t. getLastUseRepo st useRepos = Some t \<and> t \<in> set useRepos"
  using getLastUseRepo_fold_Some[of st "tl useRepos" "hd useRepos"]
  by (cases useRepos) (auto simp: getLastUseRepo_def)

lemma getLastUseRepo_cong:
  "(\<And>a. Pos_Byte (st' a) = Pos_Byte (st a)) \<Longrightarrow>
   getLastUseRepo st' useRepos = getLastUseRepo st useRepos"
  by (simp add: getLastUseRepo_def cong: option.case_cong)

lemma fold_append_repos:
  "fold (\<lambda>repo st. if repo \<in> seen then st
                    else st(t := set_List (st t) (List (st t) @ [StringExpr repo]))) repos st =
   st(t := set_List (st t) (List (st t) @ map StringExpr (filter (\<lambda>r. r \<notin> seen) repos)))"
  by (induction repos arbitrary: st) auto

text \<open>
  What a call of \<open>AddRepoUsages\<close> with a target does: the requested names that
  are not in \<open>seen\<close> are appended, in order, to the last call.
\<close>

lemma AddRepoUsages_eq:
  assumes "useRepos \<noteq> []" "getLastUseRepo st useRepos = Some t"
  shows "AddRepoUsages st useRepos repos =
           Inr (st(t := set_List (st t)
                  (List (st t) @ map StringExpr (filter (\<lambda>r. r \<notin> seenRepos st useRepos) repos))))"
  using assms by (cases "repos = []") (simp_all add: AddRepoUsages_def fold_append_repos)

lemma count_list_map_StringExpr: "count_list (map StringExpr rs) (StringExpr x) = count_list rs x"
  by (induction rs) auto

lemma count_list_filter: "P x \<Longrightarrow> count_list (filter P rs) x = count_list rs x"
  by (induction rs) auto

text \<open>
  Claim C2, as amended.  Without target calls \<open>AddRepoUsages\<close> panics when
  there are names to add; when there are none it returns before it looks at the
  targets, and the store is what it was.
\<close>

theorem AddRepoUsages_no_targets:
  "AddRepoUsages st [] repos =
     (if repos = [] then Inr st else Inl (Panic ''useRepos must not be empty''))"
  by (simp add: AddRepoUsages_def)

theorem AddRepoUsages_no_targets_witness:
  "AddRepoUsages example_calls [] [''x''] = Inl (Panic ''useRepos must not be empty'')"
  using AddRepoUsages_no_targets [of example_calls "[''x'']"] by simp

text \<open>
  Claim C2 as stated fails: with no targets and no names the call returns
  normally.
\<close>

theorem AddRepoUsages_no_targets_no_repos_returns:
  "AddRepoUsages example_calls [] [] = Inr example_calls"
  by (simp add: AddRepoUsages_def)

text \<open>
  Claim C10.  With at least one target call and a name \<open>x\<close> that is not in
  \<open>seen\<close>, the call returns with the target, the last of the calls, extended by
  the requested names outside \<open>seen\<close>, where \<open>seen\<close> is the set computed from the
  store before the call; the string \<open>x\<close> is among the appended arguments as often
  as it is among the requested names.
\<close>

theorem AddRepoUsages_appends_duplicates:
  assumes "useRepos \<noteq> []" and "x \<notin> seenRepos st useRepos"
  shows "\<exists>t. getLastUseRepo st useRepos = Some t \<and> t \<in> set useRepos \<and>
             AddRepoUsages st useRepos repos =
               Inr (st(t := set_List (st t)
                      (List (st t) @
                       map StringExpr (filter (\<lambda>r. r \<notin> seenRepos st useRepos) repos)))) \<and>
             count_list (map StringExpr (filter (\<lambda>r. r \<notin> seenRepos st useRepos) repos))
                        (StringExpr x) = count_list repos x"
proof -
  from getLastUseRepo_mem[OF assms(1)] obtain t
    where t: "getLastUseRepo st useRepos = Some t" "t \<in> set useRepos" by blast
  show ?thesis
    using t assms(2) AddRepoUsages_eq[OF assms(1) t(1)]
    by (simp add: count_list_map_StringExpr count_list_filter)
qed

theorem AddRepoUsages_appends_duplicates_witness:
  "[0, 1] \<noteq> ([] :: nat list) \<and> ''c'' \<notin> seenRepos example_calls [0, 1] \<and>
   AddRepoUsages example_calls [0, 1] [''c'', ''a'', ''c''] =
     Inr (example_calls(1 := CallExpr (Ident ''use_repo'')
            [Ident ''ext'', AssignExpr (Ident ''my_b'') ''='' (StringExpr ''b''),
             StringExpr ''c'', StringExpr ''c''] 80))"
proof -
  have h1: "[0, 1] \<noteq> ([] :: nat list)" by simp
  have seen: "seenRepos example_calls [0, 1] = {''a'', ''b''}"
    by (auto simp: seenRepos_def example_calls_def repoFromUseRepoArg_def)
  have h2: "''c'' \<notin> seenRepos example_calls [0, 1]" unfolding seen by simp
  have last: "getLastUseRepo example_calls [0, 1] = Some 1"
    by (simp add: getLastUseRepo_def example_calls_def)
  from AddRepoUsages_appends_duplicates [OF h1 h2, of "[''c'', ''a'', ''c'']"]
  show ?thesis using h1 h2 unfolding last seen by (simp add: set_List_def example_calls_def)
qed

text \<open>
  A second call with the same name changes nothing when the target call has
  at least one argument: the name appended by the first call is then behind
  position 0, where the second call finds it.
\<close>

lemma AddRepoUsages_idempotent_on_valid_target:
  assumes "useRepos \<noteq> []" "getLastUseRepo st useRepos = Some t" "List (st t) \<noteq> []"
      and "AddRepoUsages st useRepos [x] = Inr st1"
  shows "AddRepoUsages st1 useRepos [x] = Inr st1"
proof -
  have t_in: "t \<in> set useRepos"
    using getLastUseRepo_mem[OF assms(1), of st] assms(2) by simp
  have st1: "st1 = st(t := set_List (st t)
                  (List (st t) @ map StringExpr (filter (\<lambda>r. r \<notin> seenRepos st useRepos) [x])))"
    using AddRepoUsages_eq[OF assms(1,2), of "[x]"] assms(4) by simp
  have pos: "\<And>a. Pos_Byte (st1 a) = Pos_Byte (st a)" by (simp add: st1)
  have last1: "getLastUseRepo st1 useRepos = Some t"
    using getLastUseRepo_cong[of st1 st useRepos] pos assms(2) by simp
  have seen1: "x \<in> seenRepos st1 useRepos"
  proof (cases "x \<in> seenRepos st useRepos")
    case True
    then have "st1 = st" by (simp add: st1)
    with True show ?thesis by simp
  next
    case False
    then have "List (st1 t) = List (st t) @ [StringExpr x]" by (simp add: st1)
    with assms(3) have "StringExpr x \<in> set (tl (List (st1 t)))" by (cases "List (st t)") auto
    then have "repoFromUseRepoArg (StringExpr x) \<in> repoFromUseRepoArg ` set (tl (List (st1 t)))"
      by (rule imageI)
    then show ?thesis using t_in by (auto simp: seenRepos_eq repoFromUseRepoArg_def)
  qed
  show ?thesis
    using AddRepoUsages_eq[OF assms(1) last1, of "[x]"] seen1 by simp
qed

text \<open>
  Claim C4.  A use_repo statement has its proxy as first argument, so every
  call of the list has an argument.  For every non-empty list of such calls and
  every name \<open>x\<close>, \<open>AddRepoUsages\<close> with \<open>x\<close> returns, and a second
  \<open>AddRepoUsages\<close> with \<open>x\<close> on the store it leaves returns that store
  again: every call has the arguments it had after the first application, none
  more and none fewer.
\<close>

theorem AddRepoUsages_idempotent:
  assumes "useRepos \<noteq> []" and "\<forall>a\<in>set useRepos. List (st a) \<noteq> []"
  shows "\<exists>st1. AddRepoUsages st useRepos [x] = Inr st1 \<and>
               AddRepoUsages st1 useRepos [x] = Inr st1 \<and>
               (\<forall>a. \<forall>arg. count_list (List (st1 a)) arg =
                  count_list (List (st a)) arg +
                  (if getLastUseRepo st useRepos = Some a \<and> arg = StringExpr x \<and>
                      x \<notin> seenRepos st useRepos then 1 else 0))"
proof -
  from getLastUseRepo_mem[OF assms(1)] obtain t
    where t: "getLastUseRepo st useRepos = Some t" "t \<in> set useRepos" by blast
  have valid: "List (st t) \<noteq> []" using assms(2) t(2) by blast
  define st1 where
    "st1 = st(t := set_List (st t)
             (List (st t) @ map StringExpr (filter (\<lambda>r. r \<notin> seenRepos st useRepos) [x])))"
  have once: "AddRepoUsages st useRepos [x] = Inr st1"
    unfolding st1_def by (rule AddRepoUsages_eq[OF assms(1) t(1)])
  have twice: "AddRepoUsages st1 useRepos [x] = Inr st1"
    by (rule AddRepoUsages_idempotent_on_valid_target[OF assms(1) t(1) valid once])
  have counts: "\<forall>a. \<forall>arg. count_list (List (st1 a)) arg =
                  count_list (List (st a)) arg +
                  (if getLastUseRepo st useRepos = Some a \<and> arg = StringExpr x \<and>
                      x \<notin> seenRepos st useRepos then 1 else 0)"
    by (auto simp: st1_def t(1))
  from once twice counts show ?thesis by blast
qed

theorem AddRepoUsages_idempotent_witness:
  "[0, 1] \<noteq> ([] :: nat list) \<and>
   List (example_calls 0) \<noteq> [] \<and> List (example_calls 1) \<noteq> [] \<and>
   AddRepoUsages example_calls [0, 1] [''c''] =
     Inr (example_calls(1 := CallExpr (Ident ''use_repo'')
            [Ident ''ext'', AssignExpr (Ident ''my_b'') ''='' (StringExpr ''b''),
             StringExpr ''c''] 80)) \<and>
   AddRepoUsages (example_calls(1 := CallExpr (Ident ''use_repo'')
            [Ident ''ext'', AssignExpr (Ident ''my_b'') ''='' (StringExpr ''b''),
             StringExpr ''c''] 80)) [0, 1] [''c''] =
     Inr (example_calls(1 := CallExpr (Ident ''use_repo'')
            [Ident ''ext'', AssignExpr (Ident ''my_b'') ''='' (StringExpr ''b''),
             StringExpr ''c''] 80))"
proof -
  have h1: "[0, 1] \<noteq> ([] :: nat list)" by simp
  have h2: "\<forall>a\<in>set [0, 1]. List (example_calls a) \<noteq> []" by (simp add: example_calls_def)
  have seen: "seenRepos example_calls [0, 1] = {''a'', ''b''}"
    by (auto simp: seenRepos_def example_calls_def repoFromUseRepoArg_def)
  have last: "getLastUseRepo example_calls [0, 1] = Some 1"
    by (simp add: getLastUseRepo_def example_calls_def)
  have once: "AddRepoUsages example_calls [0, 1] [''c''] =
     Inr (example_calls(1 := CallExpr (Ident ''use_repo'')
            [Ident ''ext'', AssignExpr (Ident ''my_b'') ''='' (StringExpr ''b''),
             StringExpr ''c''] 80))"
    unfolding AddRepoUsages_eq[OF h1 last] seen by (simp add: set_List_def example_calls_def)
  from AddRepoUsages_idempotent [OF h1 h2, of "''c''"] obtain st1 where
    "AddRepoUsages example_calls [0, 1] [''c''] = Inr st1"
    "AddRepoUsages st1 [0, 1] [''c''] = Inr st1" by blast
  with once h1 h2 show ?thesis by simp
qed

text \<open>
  A call without arguments is no use_repo statement; the loop that builds
  \<open>seen\<close> passes over it as invalid.  As the target it gets the name at
  position 0, which \<open>seen\<close> never covers: \<open>use_repo()\<close> becomes \<open>use_repo("x")\<close>
  and, on a second application, \<open>use_repo("x", "x")\<close>.
\<close>

lemma AddRepoUsages_twice_on_call_without_arguments:
  "AddRepoUsages example_calls [2] [''x''] =
     Inr (example_calls(2 := CallExpr (Ident ''use_repo'') [StringExpr ''x''] 0)) \<and>
   AddRepoUsages (example_calls(2 := CallExpr (Ident ''use_repo'') [StringExpr ''x''] 0)) [2] [''x''] =
     Inr (example_calls(2 := CallExpr (Ident ''use_repo'') [StringExpr ''x'', StringExpr ''x''] 0))"
  by (simp add: AddRepoUsages_def seenRepos_def getLastUseRepo_def example_calls_def set_List_def)

section \<open>Removing repositories\<close>

lemma fold_keep_args:
  "fold (\<lambda>arg args. if P arg then args @ [arg] else args) xs acc = acc @ filter P xs"
  by (induction xs arbitrary: acc) auto

lemma RemoveRepoUsages_step_eq:
  "RemoveRepoUsages_step toRemove useRepo st =
     (if List (st useRepo) = [] then st
      else st(useRepo := set_List (st useRepo)
                (hd (List (st useRepo)) #
                 filter (\<lambda>arg. repoFromUseRepoArg arg \<notin> toRemove) (tl (List (st useRepo))))))"
  by (cases "List (st useRepo)") (simp_all add: RemoveRepoUsages_step_def fold_keep_args drop_Suc)

lemma fold_RemoveRepoUsages_step:
  "List (fold (RemoveRepoUsages_step R) as st a) =
     (if a \<in> set as \<and> List (st a) \<noteq> []
      then hd (List (st a)) # filter (\<lambda>arg. repoFromUseRepoArg arg \<notin> R) (tl (List (st a)))
      else List (st a))"
  by (induction as arbitrary: st) (auto simp: RemoveRepoUsages_step_eq)

lemma RemoveRepoUsages_List:
  "List (RemoveRepoUsages st useRepos repos a) =
     (if a \<in> set useRepos \<and> repos \<noteq> [] \<and> List (st a) \<noteq> []
      then hd (List (st a)) # filter (\<lambda>arg. repoFromUseRepoArg arg \<notin> set repos) (tl (List (st a)))
      else List (st a))"
  by (auto simp: RemoveRepoUsages_def fold_RemoveRepoUsages_step)

text \<open>
  Claim C5.  Every call that has an argument keeps its first argument
  through \<open>RemoveRepoUsages\<close>, and the arguments behind it are the old ones, in
  their order, without those naming a repository to remove (all of them when the
  call is not among \<open>useRepos\<close> or there is nothing to remove).
\<close>

theorem RemoveRepoUsages_keeps_proxy:
  assumes "List (st a) \<noteq> []"
  shows "List (RemoveRepoUsages st useRepos repos a) =
           hd (List (st a)) #
           (if a \<in> set useRepos \<and> repos \<noteq> []
            then filter (\<lambda>arg. repoFromUseRepoArg arg \<notin> set repos) (tl (List (st a)))
            else tl (List (st a)))"
  using assms by (simp add: RemoveRepoUsages_List)

theorem RemoveRepoUsages_keeps_proxy_witness:
  "List (example_calls 1) \<noteq> [] \<and>
   List (RemoveRepoUsages example_calls [0, 1] [''b''] 1) = [Ident ''ext'']"
proof -
  have h: "List (example_calls 1) \<noteq> []" by (simp add: example_calls_def)
  from RemoveRepoUsages_keeps_proxy [of example_calls 1 "[0, 1]" "[''b'']", OF h]
  show ?thesis using h by (simp add: example_calls_def repoFromUseRepoArg_def)
qed

section \<open>The last usage\<close>

lemma usedProxy_parse:
  "usedProxy s =
     (if fst (parseUseExtension s) \<noteq> '''' then Some (fst (parseUseExtension s))
      else if parseTag s \<noteq> '''' then Some (parseTag s) else None)"
  by (cases s rule: usedProxy.cases)
     (auto simp: parseUseExtension_def parseTag_def noUseExtension_def split_beta split: Expr.splits)

lemma lastProxyUsage_step_eq:
  "lastProxyUsage_step proxies (i, s) acc =
     (case usedProxy s of
        Some p \<Rightarrow> if p \<in> set proxies then (int i, p) else acc
      | None \<Rightarrow> acc)"
  by (cases acc; cases "parseUseExtension s")
     (auto simp: lastProxyUsage_step_def usedProxy_parse Let_def parseUseExtension_def
                 parseTag_def noUseExtension_def split: Expr.splits)

lemma fold_lastProxyUsage_none:
  "\<forall>s\<in>set xs. \<not> usesOneOf proxies s \<Longrightarrow>
   fold (lastProxyUsage_step proxies) (enumerate n xs) acc = acc"
  by (induction xs arbitrary: n acc)
     (auto simp: lastProxyUsage_step_eq usesOneOf_def split: option.splits)

lemma fold_lastProxyUsage_last:
  assumes "usedProxy s = Some p" "p \<in> set proxies" "\<forall>s\<in>set post. \<not> usesOneOf proxies s"
  shows "fold (lastProxyUsage_step proxies) (enumerate n (pre @ s # post)) acc =
           (int (n + length pre), p)"
  using assms
  by (simp add: enumerate_append_eq lastProxyUsage_step_eq fold_lastProxyUsage_none)

lemma lastProxyUsage_none:
  "\<forall>s\<in>set (Stmt f). \<not> usesOneOf proxies s \<Longrightarrow> lastProxyUsage f proxies = (- 1, '''')"
  by (simp add: lastProxyUsage_def fold_lastProxyUsage_none)

lemma lastProxyUsage_last:
  assumes "i < length (Stmt f)" "usedProxy (Stmt f ! i) = Some p" "p \<in> set proxies"
      and "\<forall>j. i < j \<and> j < length (Stmt f) \<longrightarrow> \<not> usesOneOf proxies (Stmt f ! j)"
  shows "lastProxyUsage f proxies = (int i, p)"
proof -
  have split: "Stmt f = take i (Stmt f) @ (Stmt f ! i) # drop (Suc i) (Stmt f)"
    using assms(1) by (simp add: id_take_nth_drop)
  have post: "\<forall>s\<in>set (drop (Suc i) (Stmt f)). \<not> usesOneOf proxies s"
  proof
    fix s assume "s \<in> set (drop (Suc i) (Stmt f))"
    then obtain k where "k < length (drop (Suc i) (Stmt f))" "s = drop (Suc i) (Stmt f) ! k"
      by (auto simp: in_set_conv_nth)
    then show "\<not> usesOneOf proxies s" using assms(4) by simp
  qed
  have "fold (lastProxyUsage_step proxies)
          (enumerate 0 (take i (Stmt f) @ (Stmt f ! i) # drop (Suc i) (Stmt f))) (- 1, '''') =
        (int (0 + length (take i (Stmt f))), p)"
    by (rule fold_lastProxyUsage_last[OF assms(2,3) post])
  then show ?thesis using split assms(1) by (simp add: lastProxyUsage_def)
qed

lemma last_usage_ex:
  "\<exists>x\<in>set xs. P x \<Longrightarrow>
   \<exists>i<length xs. P (xs ! i) \<and> (\<forall>j. i < j \<and> j < length xs \<longrightarrow> \<not> P (xs ! j))"
proof (induction xs rule: rev_induct)
  case Nil
  then show ?case by simp
next
  case (snoc x xs)
  show ?case
  proof (cases "P x")
    case True
    then show ?thesis by (intro exI[of _ "length xs"]) auto
  next
    case False
    with snoc.prems have "\<exists>x\<in>set xs. P x" by auto
    from snoc.IH[OF this] obtain i where
      i: "i < length xs" "P (xs ! i)" "\<forall>j. i < j \<and> j < length xs \<longrightarrow> \<not> P (xs ! j)" by blast
    show ?thesis
    proof (intro exI[of _ i] conjI allI impI)
      show "i < length (xs @ [x])" using i by simp
      show "P ((xs @ [x]) ! i)" using i by (simp add: nth_append)
    next
      fix j assume "i < j \<and> j < length (xs @ [x])"
      then show "\<not> P ((xs @ [x]) ! j)"
        using i(3) False by (cases "j < length xs") (auto simp: nth_append)
    qed
  qed
qed

section \<open>Appending to slices\<close>

lemma drop_overwrite:
  "i + k \<le> length a \<Longrightarrow> drop i (overwrite a (i + k) xs) = overwrite (drop i a) k xs"
  by (simp add: overwrite_def drop_take ac_simps)

lemma take_overwrite:
  "k \<le> length b \<Longrightarrow> take (k + length xs) (overwrite b k xs) = take k b @ xs"
  by (simp add: overwrite_def min_def)

lemma slice_literal_read:
  "slice_read (fst (slice_literal h ys)) (snd (slice_literal h ys)) = ys"
  by (simp add: slice_literal_def slice_read_def)

text \<open>The slice \<open>append\<close> returns shows the old elements and then the new ones.\<close>

lemma go_append_read:
  assumes "len s \<le> cap s" "start s + cap s \<le> length (arrays h (base s))"
  shows "slice_read (fst (go_append h s xs)) (snd (go_append h s xs)) = slice_read h s @ xs"
proof (cases "len s + length xs \<le> cap s")
  case True
  have "take (len s + length xs) (drop (start s) (overwrite (arrays h (base s)) (start s + len s) xs))
        = take (len s) (drop (start s) (arrays h (base s))) @ xs"
    using assms True by (simp add: drop_overwrite take_overwrite)
  with True show ?thesis by (simp add: go_append_def slice_read_def)
next
  case False
  then show ?thesis by (simp add: go_append_def slice_literal_read)
qed

text \<open>
  What \<open>append\<close> does to the arrays that were there: it writes into the array
  of its first argument when the capacity suffices, and leaves every other one
  as it was.
\<close>

lemma go_append_arrays:
  "b < fresh h \<Longrightarrow> arrays (fst (go_append h s xs)) b =
     (if b = base s \<and> len s + length xs \<le> cap s
      then overwrite (arrays h b) (start s + len s) xs else arrays h b)"
  by (simp add: go_append_def slice_literal_def)

lemma go_append_fresh: "fresh h \<le> fresh (fst (go_append h s xs))"
  by (simp add: go_append_def slice_literal_def)

section \<open>\<open>NewUseRepo\<close>\<close>

lemma NewUseRepo_none:
  "fst (lastProxyUsage (load h f) proxies) = - 1 \<Longrightarrow> NewUseRepo h f proxies = Some (h, f, None)"
  by (simp add: NewUseRepo_def split_beta)

text \<open>
  The call of \<open>NewUseRepo\<close> when statement \<open>i\<close> is the last usage: it does not
  panic; the returned file shows the old statements with the new call behind
  statement \<open>i\<close>; and the file passed in shows, after the call, its old statements
  only when its slice had no spare capacity.  With spare capacity the outer
  \<open>append\<close> has written the new call and the statements behind statement \<open>i\<close>
  into the array of \<open>f.Stmt\<close>, one place further back.
\<close>

lemma NewUseRepo_insert:
  fixes f :: File_mem
  assumes ok: "slice_ok h (Stmt f)"
      and last: "lastProxyUsage (load h f) proxies = (int i, p)"
      and i: "i < len (Stmt f)"
  defines "old \<equiv> slice_read h (Stmt f)"
      and "u \<equiv> CallExpr (Ident ''use_repo'') [Ident p] 0"
  shows "\<exists>h' stmt.
           NewUseRepo h f proxies =
             Some (h', \<lparr>Path = Path f, Stmt = stmt, Type = TypeModule\<rparr>, Some u) \<and>
           slice_read h' stmt = take (Suc i) old @ Call u # drop (Suc i) old \<and>
           slice_read h' (Stmt f) =
             (if len (Stmt f) < cap (Stmt f)
              then take (Suc i) old @ take (len (Stmt f) - Suc i) (Call u # drop (Suc i) old)
              else old)"
proof -
  define s where "s = Stmt f"
  define A where "A = arrays h (base s)"
  define front where "front = s\<lparr>len := Suc i\<rparr>"
  define tail where
    "tail = \<lparr>base = base s, start = start s + Suc i, len = len s - Suc i, cap = cap s - Suc i\<rparr>"
  define h1 where "h1 = fst (slice_literal h [Call u])"
  define lit where "lit = snd (slice_literal h [Call u])"
  define tl where "tl = slice_read h1 tail"
  define h2 where "h2 = fst (go_append h1 lit tl)"
  define inner where "inner = snd (go_append h1 lit tl)"
  define iv where "iv = slice_read h2 inner"
  define h3 where "h3 = fst (go_append h2 front iv)"
  define stmt where "stmt = snd (go_append h2 front iv)"
  have base: "base s < fresh h" and lc: "len s \<le> cap s"
    and sc: "start s + cap s \<le> length A"
    using ok by (simp_all add: slice_ok_def s_def A_def)
  have i': "Suc i \<le> len s" using i by (simp add: s_def)
  have old: "old = take (len s) (drop (start s) A)"
    by (simp add: old_def slice_read_def s_def A_def)
  have upto: "slice_upto (Stmt f) (int i + 1) = Some front"
    using i' lc by (simp add: slice_upto_def front_def s_def nat_add_distrib)
  have "from": "slice_from (Stmt f) (int i + 1) = Some tail"
    using i' by (simp add: slice_from_def tail_def s_def nat_add_distrib)
  have run: "NewUseRepo h f proxies =
               Some (h3, \<lparr>Path = Path f, Stmt = stmt, Type = TypeModule\<rparr>, Some u)"
    by (simp add: NewUseRepo_def last upto "from" split_beta Let_def u_def
                  h1_def lit_def tl_def h2_def inner_def iv_def h3_def stmt_def)
  have h1: "arrays h1 (base s) = A" "fresh h1 = Suc (fresh h)" "arrays h1 (fresh h) = [Call u]"
    using base by (simp_all add: h1_def slice_literal_def A_def)
  have lit: "lit = \<lparr>base = fresh h, start = 0, len = 1, cap = 1\<rparr>"
    by (simp add: lit_def slice_literal_def)
  have tl: "tl = drop (Suc i) old"
    by (simp add: tl_def tail_def slice_read_def h1 old drop_take ac_simps)
  have "slice_read h2 inner = slice_read h1 lit @ tl"
    unfolding h2_def inner_def by (rule go_append_read) (simp_all add: lit h1)
  then have iv: "iv = Call u # tl"
    by (simp add: iv_def lit slice_read_def h1)
  have h2a: "arrays h2 (base s) = A"
    using base by (simp add: h2_def go_append_arrays h1 lit)
  have h2f: "base s < fresh h2"
    using base go_append_fresh[of h1 lit tl] by (simp add: h2_def h1)
  have fr: "slice_read h2 front = take (Suc i) old"
    using i' by (simp add: slice_read_def front_def h2a old min_def)
  have "slice_read h3 stmt = slice_read h2 front @ iv"
    unfolding h3_def stmt_def
    by (rule go_append_read) (use i' lc sc in \<open>simp_all add: front_def h2a\<close>)
  then have new: "slice_read h3 stmt = take (Suc i) old @ Call u # drop (Suc i) old"
    by (simp add: fr iv tl)
  have liv: "length iv = len s - i"
    using i' lc sc by (simp add: iv tl old)
  have h3a: "arrays h3 (base s) =
               (if len s < cap s then overwrite A (start s + Suc i) iv else A)"
    using h2f i' by (auto simp: h3_def go_append_arrays front_def h2a liv)
  have orig: "slice_read h3 s =
                (if len s < cap s
                 then take (Suc i) old @ take (len s - Suc i) (Call u # drop (Suc i) old)
                 else old)"
  proof (cases "len s < cap s")
    case True
    have le: "start s + Suc i \<le> length A" using i' lc sc by simp
    have le': "Suc i \<le> length (drop (start s) A)" using i' lc sc by simp
    have "slice_read h3 s = take (len s) (drop (start s) (overwrite A (start s + Suc i) iv))"
      using True by (simp only: slice_read_def h3a if_True)
    also have "\<dots> = take (len s) (overwrite (drop (start s) A) (Suc i) iv)"
      by (simp only: drop_overwrite[OF le])
    also have "\<dots> = take (Suc i) (drop (start s) A) @ take (len s - Suc i) iv"
      using le' i' liv by (simp add: overwrite_def)
    also have "take (Suc i) (drop (start s) A) = take (Suc i) old"
      using i' by (simp add: old min_def)
    finally show ?thesis using True by (simp add: iv tl)
  next
    case False
    then show ?thesis by (simp add: slice_read_def h3a old)
  qed
  show ?thesis
    using run new orig by (auto simp: s_def)
qed

lemma example_file_read:
  "slice_read (example_heap spare) (Stmt example_file) = example_stmts"
  by (simp add: slice_read_def example_heap_def example_file_def example_stmts_def)

lemma example_file_last:
  "lastProxyUsage (load (example_heap spare) example_file) [''ext''] = (int 1, ''ext'')"
  by (simp add: load_def example_file_read lastProxyUsage_def example_stmts_def
                lastProxyUsage_step_eq)

text \<open>
  Claim C1 at \<open>example_file\<close>, whose slice of three statements has capacity
  4.  The last usage of \<open>ext\<close> is the second statement, so \<open>NewUseRepo\<close> inserts
  \<open>use_repo(ext)\<close> behind it.  In the store after the call the file that was
  passed in shows \<open>use_repo(ext)\<close> as its third statement, where \<open>bazel_dep\<close> was;
  the returned file shows all four; the returned call is \<open>use_repo(ext)\<close>.
\<close>

theorem NewUseRepo_overwrites_original:
  "map_option (\<lambda>(h', f', useRepo).
                  (slice_read h' (Stmt example_file), slice_read h' (Stmt f'), useRepo))
     (NewUseRepo (example_heap spare) example_file [''ext'']) =
   Some (take 2 example_stmts @ [Call (CallExpr (Ident ''use_repo'') [Ident ''ext''] 0)],
         take 2 example_stmts @ [Call (CallExpr (Ident ''use_repo'') [Ident ''ext''] 0)] @
           drop 2 example_stmts,
         Some (CallExpr (Ident ''use_repo'') [Ident ''ext''] 0))"
proof -
  have ok: "slice_ok (example_heap spare) (Stmt example_file)"
    by (simp add: slice_ok_def example_heap_def example_file_def example_stmts_def)
  have i: "1 < len (Stmt example_file)" by (simp add: example_file_def)
  from NewUseRepo_insert[OF ok example_file_last i, unfolded example_file_read]
  show ?thesis
    by (auto simp: example_file_def example_stmts_def)
qed

lemma Stmt_load [simp]: "Stmt (load h f) = slice_read h (Stmt f)"
  by (simp add: load_def)

lemma length_slice_read:
  "slice_ok h s \<Longrightarrow> length (slice_read h s) = len s"
  by (auto simp: slice_read_def slice_ok_def min_def)

text \<open>
  Claim C6.  When no statement of the file uses one of the given proxies,
  \<open>NewUseRepo\<close> returns the file it got, no call, and the store as it was.
  Otherwise there is a last statement that uses one of them, statement \<open>i\<close>
  using proxy \<open>p\<close>, and \<open>NewUseRepo\<close> returns the call \<open>use_repo(p)\<close> and a
  file whose statements are the old ones with that call behind statement \<open>i\<close>.
\<close>

theorem NewUseRepo_inserts_after_last_usage:
  fixes f :: File_mem
  assumes "slice_ok h (Stmt f)"
  shows "if \<forall>s\<in>set (slice_read h (Stmt f)). \<not> usesOneOf proxies s
         then NewUseRepo h f proxies = Some (h, f, None)
         else \<exists>i p h' stmt.
                i < length (slice_read h (Stmt f)) \<and>
                usedProxy (slice_read h (Stmt f) ! i) = Some p \<and> p \<in> set proxies \<and>
                (\<forall>j. i < j \<and> j < length (slice_read h (Stmt f)) \<longrightarrow>
                       \<not> usesOneOf proxies (slice_read h (Stmt f) ! j)) \<and>
                NewUseRepo h f proxies =
                  Some (h', \<lparr>Path = Path f, Stmt = stmt, Type = TypeModule\<rparr>,
                        Some (CallExpr (Ident ''use_repo'') [Ident p] 0)) \<and>
                slice_read h' stmt =
                  take (Suc i) (slice_read h (Stmt f)) @
                  Call (CallExpr (Ident ''use_repo'') [Ident p] 0) #
                  drop (Suc i) (slice_read h (Stmt f))"
proof (cases "\<forall>s\<in>set (slice_read h (Stmt f)). \<not> usesOneOf proxies s")
  case True
  then have "lastProxyUsage (load h f) proxies = (- 1, '''')"
    by (intro lastProxyUsage_none) simp
  then show ?thesis using True by (simp add: NewUseRepo_none)
next
  case False
  define old where "old = slice_read h (Stmt f)"
  from False have "\<exists>x\<in>set old. usesOneOf proxies x" by (simp add: old_def)
  from last_usage_ex[OF this] obtain i where
    i: "i < length old" "usesOneOf proxies (old ! i)"
       "\<forall>j. i < j \<and> j < length old \<longrightarrow> \<not> usesOneOf proxies (old ! j)" by blast
  from i(2) obtain p where p: "usedProxy (old ! i) = Some p" "p \<in> set proxies"
    by (auto simp: usesOneOf_def split: option.splits)
  have last: "lastProxyUsage (load h f) proxies = (int i, p)"
    by (rule lastProxyUsage_last) (use i p in \<open>simp_all add: old_def\<close>)
  have ilen: "i < len (Stmt f)"
    using i(1) length_slice_read[OF assms] by (simp add: old_def)
  from NewUseRepo_insert[OF assms last ilen] obtain h' stmt where
    "NewUseRepo h f proxies =
       Some (h', \<lparr>Path = Path f, Stmt = stmt, Type = TypeModule\<rparr>,
             Some (CallExpr (Ident ''use_repo'') [Ident p] 0))"
    "slice_read h' stmt =
       take (Suc i) old @ Call (CallExpr (Ident ''use_repo'') [Ident p] 0) # drop (Suc i) old"
    by (auto simp: old_def)
  with i p False show ?thesis unfolding old_def by (simp only: if_False) blast
qed


lemma example_file_full_read:
  "slice_read (example_heap spare) (Stmt example_file_full) = example_stmts"
  by (simp add: slice_read_def example_heap_def example_file_full_def example_stmts_def)

theorem NewUseRepo_inserts_after_last_usage_witness:
  "slice_ok (example_heap (Ident ''unused'')) (Stmt example_file_full) \<and>
   NewUseRepo (example_heap (Ident ''unused'')) example_file_full [''other''] =
     Some (example_heap (Ident ''unused''), example_file_full, None) \<and>
   (\<exists>h' stmt.
      NewUseRepo (example_heap (Ident ''unused'')) example_file_full [''ext''] =
        Some (h', \<lparr>Path = ''MODULE.bazel'', Stmt = stmt, Type = TypeModule\<rparr>,
              Some (CallExpr (Ident ''use_repo'') [Ident ''ext''] 0)) \<and>
      slice_read h' stmt =
        take 2 example_stmts @ Call (CallExpr (Ident ''use_repo'') [Ident ''ext''] 0) #
        drop 2 example_stmts)"
proof -
  let ?H = "example_heap (Ident ''unused'')"
  have ok: "slice_ok ?H (Stmt example_file_full)"
    by (simp add: slice_ok_def example_heap_def example_file_full_def example_stmts_def)
  have none: "\<forall>s\<in>set example_stmts. \<not> usesOneOf [''other''] s"
    by (simp add: example_stmts_def usesOneOf_def)
  have some: "\<not> (\<forall>s\<in>set example_stmts. \<not> usesOneOf [''ext''] s)"
    by (simp add: example_stmts_def usesOneOf_def)
  have a: "NewUseRepo ?H example_file_full [''other''] = Some (?H, example_file_full, None)"
    using NewUseRepo_inserts_after_last_usage [OF ok, of "[''other'']"] none
    by (simp add: example_file_full_read)
  from NewUseRepo_inserts_after_last_usage [OF ok, of "[''ext'']"] some
  obtain i p h' stmt where r:
    "i < length example_stmts" "usedProxy (example_stmts ! i) = Some p" "p \<in> set [''ext'']"
    "\<forall>j. i < j \<and> j < length example_stmts \<longrightarrow> \<not> usesOneOf [''ext''] (example_stmts ! j)"
    "NewUseRepo ?H example_file_full [''ext''] =
       Some (h', \<lparr>Path = Path example_file_full, Stmt = stmt, Type = TypeModule\<rparr>,
             Some (CallExpr (Ident ''use_repo'') [Ident p] 0))"
    "slice_read h' stmt =
       take (Suc i) example_stmts @ Call (CallExpr (Ident ''use_repo'') [Ident p] 0) #
       drop (Suc i) example_stmts"
    unfolding example_file_full_read by (simp only: if_False) blast
  have p: "p = ''ext''" using r(3) by simp
  have "i = 0 \<or> i = 1 \<or> i = 2" using r(1) by (auto simp: example_stmts_def)
  moreover have "i \<noteq> 0" using r(4)[rule_format, of 1]
    by (auto simp: example_stmts_def usesOneOf_def)
  moreover have "i \<noteq> 2" using r(2) by (auto simp: example_stmts_def)
  ultimately have i: "i = 1" by blast
  have "\<exists>h' stmt.
      NewUseRepo ?H example_file_full [''ext''] =
        Some (h', \<lparr>Path = ''MODULE.bazel'', Stmt = stmt, Type = TypeModule\<rparr>,
              Some (CallExpr (Ident ''use_repo'') [Ident ''ext''] 0)) \<and>
      slice_read h' stmt =
        take 2 example_stmts @ Call (CallExpr (Ident ''use_repo'') [Ident ''ext''] 0) #
        drop 2 example_stmts"
    using r(5,6) unfolding p i by (auto simp: example_file_full_def numeral_2_eq_2)
  with ok a show ?thesis by blast
qed

section \<open>\<open>Proxies\<close> and \<open>AllProxies\<close>\<close>

text \<open>
  A statement for which \<open>parseUseExtension\<close> returns a proxy other than the
  empty string is an assignment of a \<open>use_extension\<close> call with two strings in
  front to that proxy.
\<close>

lemma parseUseExtension_shape:
  assumes "fst (parseUseExtension s) \<noteq> ''''"
  shows "\<exists>op b n args pos.
           s = AssignExpr (Ident (fst (parseUseExtension s))) op
                 (Call (CallExpr (Ident ''use_extension'') (StringExpr b # StringExpr n # args) pos))"
  using assms
  by (cases s rule: usedProxy.cases)
     (auto simp: parseUseExtension_def noUseExtension_def split_beta split: Expr.splits if_splits)

lemma Proxies_eq:
  "Proxies D f rawExtBzlFile extName dev =
     map (\<lambda>stmt. fst (parseUseExtension stmt))
         (filter (sameUsage D f rawExtBzlFile extName dev) (Stmt f))"
proof -
  have "fold (\<lambda>stmt proxies.
                 case parseUseExtension stmt of
                   (proxy, rawBzlFile, name, isDev, isIsolated) \<Rightarrow>
                     if proxy = '''' \<or> isDev \<noteq> dev \<or> isIsolated then proxies
                     else let bzlFile = normalizeLabelString D rawBzlFile a in
                          if bzlFile = e \<and> name = extName
                          then proxies @ [proxy] else proxies) xs acc =
        acc @ map (\<lambda>stmt. fst (parseUseExtension stmt))
                (filter (\<lambda>stmt. case parseUseExtension stmt of
                    (proxy, rawBzlFile, name, isDev, isIsolated) \<Rightarrow>
                      proxy \<noteq> '''' \<and> isDev = dev \<and> \<not> isIsolated \<and>
                      normalizeLabelString D rawBzlFile a = e \<and> name = extName) xs)" for xs acc a e
    by (induction xs arbitrary: acc) (auto simp: split_beta Let_def)
  then show ?thesis
    by (simp add: Proxies_def sameUsage_def[abs_def] Let_def)
qed

text \<open>
  \<open>AllProxies\<close> looks for the first statement for which \<open>parseUseExtension\<close>
  returns the proxy asked for.  For a proxy other than the empty string that is
  the first \<open>use_extension\<close> assignment to it; without one the result is empty,
  an isolated one gives the proxy alone, and any other one gives the proxies of
  its usage.
\<close>

lemma AllProxies_from_eq:
  "AllProxies_from D f proxy stmts =
     (case List.find (\<lambda>stmt. fst (parseUseExtension stmt) = proxy) stmts of
        None \<Rightarrow> []
      | Some stmt \<Rightarrow>
          (case parseUseExtension stmt of
             (_, rawBzlFile, name, isDev, isIsolated) \<Rightarrow>
               if isIsolated then [proxy] else Proxies D f rawBzlFile name isDev))"
  by (induction stmts) (auto simp: split_beta)

lemma AllProxies_not_defined:
  assumes "\<forall>stmt\<in>set (Stmt f). fst (parseUseExtension stmt) \<noteq> proxy"
  shows "AllProxies D f proxy = []"
proof -
  have "List.find (\<lambda>stmt. fst (parseUseExtension stmt) = proxy) (Stmt f) = None"
    using assms by (simp add: find_None_iff)
  then show ?thesis by (simp add: AllProxies_def AllProxies_from_eq)
qed

lemma AllProxies_defined:
  assumes "Stmt f = pre @ stmt # post"
      and "\<forall>s\<in>set pre. fst (parseUseExtension s) \<noteq> proxy"
      and "parseUseExtension stmt = (proxy, rawBzlFile, name, isDev, isIsolated)"
  shows "AllProxies D f proxy =
           (if isIsolated then [proxy]
            else map (\<lambda>stmt. fst (parseUseExtension stmt))
                   (filter (sameUsage D f rawBzlFile name isDev) (Stmt f)))"
proof -
  have "List.find (\<lambda>s. fst (parseUseExtension s) = proxy) (pre @ stmt # post) = Some stmt"
    using assms(2,3) by (induction pre) auto
  then show ?thesis
    using assms(1,3) by (simp add: AllProxies_def AllProxies_from_eq Proxies_eq)
qed

lemma AllProxies_two_proxies:
  assumes "Stmt f =
     [AssignExpr (Ident ''p1'') ''=''
        (Call (CallExpr (Ident ''use_extension'') [StringExpr ''a.bzl'', StringExpr ''e''] pos1)),
      AssignExpr (Ident ''p2'') ''=''
        (Call (CallExpr (Ident ''use_extension'') [StringExpr ''a.bzl'', StringExpr ''e''] pos2))]"
  shows "AllProxies D f ''p1'' = [''p1'', ''p2'']"
  using assms
  by (simp add: AllProxies_def Proxies_def parseUseExtension_call)

text \<open>
  Claim C3 at the empty proxy name.  No statement of \<open>empty_proxy_file\<close>
  defines a proxy of the empty name, but \<open>parseUseExtension\<close> returns the empty
  name for the first statement, which is no \<open>use_extension\<close> assignment, and
  \<open>AllProxies\<close> takes that for the definition of the proxy asked for.  It goes
  on to \<open>Proxies\<close> with the empty file and extension name, which finds \<open>x\<close>.
\<close>

theorem AllProxies_empty_proxy: "AllProxies D empty_proxy_file '''' = [''x'']"
  by (simp add: AllProxies_def Proxies_def empty_proxy_file_def parseUseExtension_def
                noUseExtension_def)

section \<open>The traversal of included files\<close>

lemma loop_Nil:
  "collectApparentNames_loop D fr an seen [] reads = Some (Some an, reads)"
  by (subst collectApparentNames_loop.simps) simp

lemma loop_seen:
  "f \<in> seen \<Longrightarrow>
   collectApparentNames_loop D fr an seen (f # rest) reads =
   collectApparentNames_loop D fr an seen rest reads"
  by (subst collectApparentNames_loop.simps) simp

lemma loop_absent:
  "f \<notin> seen \<Longrightarrow> fr f = None \<Longrightarrow>
   collectApparentNames_loop D fr an seen (f # rest) reads = Some (None, reads @ [f])"
  by (subst collectApparentNames_loop.simps) simp

lemma loop_read:
  "f \<notin> seen \<Longrightarrow> fr f = Some bf \<Longrightarrow>
   collectApparentNames_loop D fr an seen (f # rest) reads =
   collectApparentNames_loop D fr
     (an ++ fst (collectApparentNamesAndIncludes D bf)) (insert f seen)
     (rest @ map (includePath D) (snd (collectApparentNamesAndIncludes D bf))) (reads @ [f])"
  by (subst collectApparentNames_loop.simps) (simp add: split_beta)

lemma loop_total:
  assumes fin: "finite R"
    and closed: "\<And>p bf l. p \<in> R \<Longrightarrow> fr p = Some bf \<Longrightarrow>
                   l \<in> set (snd (collectApparentNamesAndIncludes D bf)) \<Longrightarrow> includePath D l \<in> R"
    and "set q \<subseteq> R" "set reads \<subseteq> seen" "distinct reads"
  shows "\<exists>res reads'. collectApparentNames_loop D fr an seen q reads = Some (res, reads') \<and>
                        distinct reads'"
  using assms(3-5)
proof (induction "card (R - seen)" arbitrary: an seen q reads rule: less_induct)
  case less
  show ?case using less.prems
  proof (induction q arbitrary: an reads)
    case Nil
    then show ?case by (simp add: loop_Nil)
  next
    case (Cons f rest)
    show ?case
    proof (cases "f \<in> seen")
      case True
      then show ?thesis using Cons.IH[of reads an] Cons.prems by (simp add: loop_seen)
    next
      case unseen: False
      show ?thesis
      proof (cases "fr f")
        case None
        then show ?thesis using unseen Cons.prems by (auto simp: loop_absent)
      next
        case (Some bf)
        have fR: "f \<in> R" using Cons.prems by simp
        have "R - insert f seen \<subset> R - seen" using fR unseen by auto
        then have dec: "card (R - insert f seen) < card (R - seen)"
          using fin by (intro psubset_card_mono) auto
        have q': "set (rest @ map (includePath D) (snd (collectApparentNamesAndIncludes D bf))) \<subseteq> R"
          using Cons.prems closed[OF fR Some] by auto
        have r': "set (reads @ [f]) \<subseteq> insert f seen" "distinct (reads @ [f])"
          using Cons.prems unseen by auto
        from less.hyps[OF dec q' r'] show ?thesis
          using unseen Some by (simp add: loop_read)
      qed
    qed
  qed
qed


lemma collectApparentNames_trace_terminates:
  assumes "finite {p. reached D fr relPath p}"
  shows "\<exists>res reads. collectApparentNames_trace D fr relPath = Some (res, reads) \<and> distinct reads"
  unfolding collectApparentNames_trace_def
  by (rule loop_total[OF assms]) (auto intro: reached.intros)

lemma collectApparentNames_trace_cycle:
  assumes "A \<noteq> B" "fr A = Some fa" "fr B = Some fb"
    and "map (includePath D) (snd (collectApparentNamesAndIncludes D fa)) = [B]"
    and "map (includePath D) (snd (collectApparentNamesAndIncludes D fb)) = [A]"
  shows "collectApparentNames_trace D fr A =
           Some (Some (fst (collectApparentNamesAndIncludes D fa) ++
                       fst (collectApparentNamesAndIncludes D fb)), [A, B])"
  using assms by (simp add: collectApparentNames_trace_def loop_read loop_seen loop_Nil)

text \<open>A queued path that the reader does not have makes the loop return nil.\<close>

lemma loop_absent_queued:
  assumes "fr p = None" "\<forall>s\<in>seen. fr s \<noteq> None"
  shows "\<exists>reads'. collectApparentNames_loop D fr an seen (pre @ p # post) reads = Some (None, reads')"
  using assms(2)
proof (induction pre arbitrary: an seen post reads)
  case Nil
  then have "p \<notin> seen" using assms(1) by auto
  then show ?case using assms(1) by (simp add: loop_absent)
next
  case (Cons f pre)
  show ?case
  proof (cases "f \<in> seen")
    case True
    then show ?thesis using Cons.IH[OF Cons.prems] by (simp add: loop_seen)
  next
    case unseen: False
    show ?thesis
    proof (cases "fr f")
      case None
      then show ?thesis using unseen by (simp add: loop_absent)
    next
      case (Some bf)
      have "\<forall>s\<in>insert f seen. fr s \<noteq> None" using Cons.prems Some by simp
      from Cons.IH[OF this,
          of _ "post @ map (includePath D) (snd (collectApparentNamesAndIncludes D bf))"]
      show ?thesis using unseen Some by (simp add: loop_read)
    qed
  qed
qed

lemma traversal_state_seen:
  "traversal_state D fr r seen (f # rest) \<Longrightarrow> f \<in> seen \<Longrightarrow> traversal_state D fr r seen rest"
  unfolding traversal_state_def by (auto; fastforce)

lemma traversal_state_read:
  assumes "traversal_state D fr r seen (f # rest)" "fr f = Some bf"
  shows "traversal_state D fr r (insert f seen)
           (rest @ map (includePath D) (snd (collectApparentNamesAndIncludes D bf)))"
  using assms unfolding traversal_state_def by (auto; fastforce)

text \<open>
  From a state of the traversal with \<open>p\<close> in the queue, the loop returns nil
  or gets to a state of the traversal that has seen \<open>p\<close>.
\<close>

lemma loop_dequeues:
  assumes "traversal_state D fr r seen (pre @ p # post)"
  shows "(\<exists>reads'. collectApparentNames_loop D fr an seen (pre @ p # post) reads = Some (None, reads')) \<or>
         (\<exists>an' seen' q' reads'.
            traversal_state D fr r seen' q' \<and> p \<in> seen' \<and>
            collectApparentNames_loop D fr an seen (pre @ p # post) reads =
            collectApparentNames_loop D fr an' seen' q' reads')"
  using assms
proof (induction pre arbitrary: an seen post reads)
  case Nil
  show ?case
  proof (cases "p \<in> seen")
    case True
    then show ?thesis using Nil by blast
  next
    case unseen: False
    show ?thesis
    proof (cases "fr p")
      case None
      then show ?thesis using unseen by (simp add: loop_absent)
    next
      case (Some bf)
      have ts: "traversal_state D fr r (insert p seen)
                  (post @ map (includePath D) (snd (collectApparentNamesAndIncludes D bf)))"
        using traversal_state_read[of D fr r seen p post bf] Nil Some by simp
      have eq: "collectApparentNames_loop D fr an seen ([] @ p # post) reads =
                collectApparentNames_loop D fr
                  (an ++ fst (collectApparentNamesAndIncludes D bf)) (insert p seen)
                  (post @ map (includePath D) (snd (collectApparentNamesAndIncludes D bf)))
                  (reads @ [p])"
        using unseen Some by (simp add: loop_read)
      have "p \<in> insert p seen" by simp
      with ts eq show ?thesis by blast
    qed
  qed
next
  case (Cons f pre)
  show ?case
  proof (cases "f \<in> seen")
    case True
    from traversal_state_seen[OF Cons.prems[simplified] True]
    show ?thesis using Cons.IH[of seen post an reads] True by (simp add: loop_seen)
  next
    case unseen: False
    show ?thesis
    proof (cases "fr f")
      case None
      then show ?thesis using unseen by (simp add: loop_absent)
    next
      case (Some bf)
      from traversal_state_read[OF Cons.prems[simplified] Some]
      have "traversal_state D fr r (insert f seen)
              (pre @ p # (post @ map (includePath D) (snd (collectApparentNamesAndIncludes D bf))))"
        by simp
      from Cons.IH[OF this] show ?thesis using unseen Some by (simp add: loop_read)
    qed
  qed
qed


lemma traversal_state_present:
  "traversal_state D fr r seen q \<Longrightarrow> \<forall>s\<in>seen. fr s \<noteq> None"
  unfolding traversal_state_def by fastforce

lemma traversal_state_includes:
  "traversal_state D fr r seen q \<Longrightarrow> p \<in> seen \<Longrightarrow> fr p = Some bf \<Longrightarrow>
   l \<in> set (snd (collectApparentNamesAndIncludes D bf)) \<Longrightarrow> includePath D l \<in> seen \<union> set q"
  unfolding traversal_state_def by fastforce

lemma loop_reaches:
  assumes "reached D fr r p" "traversal_state D fr r seen q"
  shows "(\<exists>reads'. collectApparentNames_loop D fr an seen q reads = Some (None, reads')) \<or>
         (\<exists>an' seen' q' reads'.
            traversal_state D fr r seen' q' \<and> p \<in> seen' \<union> set q' \<and>
            collectApparentNames_loop D fr an seen q reads =
            collectApparentNames_loop D fr an' seen' q' reads')"
  using assms
proof (induction rule: reached.induct)
  case root
  then have "r \<in> seen \<union> set q" by (simp add: traversal_state_def)
  with root show ?case by blast
next
  case (incl p bf l)
  from incl.IH[OF incl.prems] show ?case
  proof
    assume "\<exists>reads'. collectApparentNames_loop D fr an seen q reads = Some (None, reads')"
    then show ?thesis by blast
  next
    assume "\<exists>an' seen' q' reads'.
            traversal_state D fr r seen' q' \<and> p \<in> seen' \<union> set q' \<and>
            collectApparentNames_loop D fr an seen q reads =
            collectApparentNames_loop D fr an' seen' q' reads'"
    then obtain an' seen' q' reads' where
      st: "traversal_state D fr r seen' q'" and p: "p \<in> seen' \<union> set q'" and
      eq: "collectApparentNames_loop D fr an seen q reads =
           collectApparentNames_loop D fr an' seen' q' reads'" by blast
    show ?thesis
    proof (cases "p \<in> seen'")
      case True
      from traversal_state_includes[OF st True incl.hyps(2,3)] st eq show ?thesis by blast
    next
      case False
      with p obtain pre post where q': "q' = pre @ p # post" by (auto simp: in_set_conv_decomp)
      from loop_dequeues[OF st[unfolded q'], of an' reads'] show ?thesis
      proof
        assume "\<exists>r'. collectApparentNames_loop D fr an' seen' (pre @ p # post) reads' = Some (None, r')"
        then show ?thesis using eq q' by simp
      next
        assume "\<exists>an'' seen'' q'' reads''.
            traversal_state D fr r seen'' q'' \<and> p \<in> seen'' \<and>
            collectApparentNames_loop D fr an' seen' (pre @ p # post) reads' =
            collectApparentNames_loop D fr an'' seen'' q'' reads''"
        then obtain an'' seen'' q'' reads'' where
          st2: "traversal_state D fr r seen'' q''" and p2: "p \<in> seen''" and
          eq2: "collectApparentNames_loop D fr an' seen' (pre @ p # post) reads' =
                collectApparentNames_loop D fr an'' seen'' q'' reads''" by blast
        have "collectApparentNames_loop D fr an seen q reads =
              collectApparentNames_loop D fr an'' seen'' q'' reads''"
          using eq eq2 q' by simp
        with traversal_state_includes[OF st2 p2 incl.hyps(2,3)] st2 show ?thesis by blast
      qed
    qed
  qed
qed

lemma collectApparentNames_trace_absent:
  assumes "reached D fr relPath p" "fr p = None"
  shows "\<exists>reads. collectApparentNames_trace D fr relPath = Some (None, reads)"
proof -
  have init: "traversal_state D fr relPath {} [relPath]" by (simp add: traversal_state_def)
  from loop_reaches[OF assms(1) init, of Map.empty "[]"] show ?thesis
  proof
    assume "\<exists>reads'. collectApparentNames_loop D fr Map.empty {} [relPath] [] = Some (None, reads')"
    then show ?thesis by (simp add: collectApparentNames_trace_def)
  next
    assume "\<exists>an' seen' q' reads'.
             traversal_state D fr relPath seen' q' \<and> p \<in> seen' \<union> set q' \<and>
             collectApparentNames_loop D fr Map.empty {} [relPath] [] =
             collectApparentNames_loop D fr an' seen' q' reads'"
    then obtain an' seen' q' reads' where
      st: "traversal_state D fr relPath seen' q'" and p: "p \<in> seen' \<union> set q'" and
      eq: "collectApparentNames_loop D fr Map.empty {} [relPath] [] =
           collectApparentNames_loop D fr an' seen' q' reads'" by blast
    have present: "\<forall>s\<in>seen'. fr s \<noteq> None" by (rule traversal_state_present[OF st])
    with assms(2) p have "p \<in> set q'" by auto
    then obtain pre post where q': "q' = pre @ p # post" by (auto simp: in_set_conv_decomp)
    from loop_absent_queued[OF assms(2) present, of D an' pre post reads'] show ?thesis
      using eq q' by (simp add: collectApparentNames_trace_def)
  qed
qed

text \<open>On \<open>chain_reader\<close> the loop does not return.\<close>

lemma example_collab_fields [simp]:
  "File_Rules example_collab = example_Rules"
  "Rule_Kind example_collab = example_Kind"
  "Rule_ExplicitName example_collab = (\<lambda>r. example_AttrString r ''name'')"
  "Rule_AttrString example_collab = example_AttrString"
  "labels_ParseRelative example_collab = example_ParseRelative"
  "labels_Parse example_collab = (\<lambda>input. example_ParseRelative input '''')"
  "Label_Format example_collab = example_Format"
  "path_Join example_collab = example_Join"
  by (simp_all add: example_collab_def)

lemma includePath_chain: "includePath example_collab (''//:'' @ p @ ''x'') = p @ ''x''"
  by (simp add: includePath_def example_ParseRelative_def example_Join_def)

lemma chain_collect:
  "snd (collectApparentNamesAndIncludes example_collab
          \<lparr>Path = p,
           Stmt = [Call (CallExpr (Ident ''include'') [StringExpr (''//:'' @ p @ ''x'')] 0)],
           Type = TypeModule\<rparr>) = [''//:'' @ p @ ''x'']"
  by (simp add: collectApparentNamesAndIncludes_def collectApparentNamesAndIncludes_step_def
        example_Rules_def example_AttrString_def List.map_filter_def)

lemma chain_includes:
  "chain_reader p = Some bf \<Longrightarrow>
   map (includePath example_collab) (snd (collectApparentNamesAndIncludes example_collab bf)) = [p @ ''x'']"
  unfolding chain_reader_def using chain_collect[of p] includePath_chain[of p] by auto

lemma chain_loop_never_returns:
  assumes "collectApparentNames_loop D fr an seen q reads = Some y"
  shows "\<not> (D = example_collab \<and> fr = chain_reader \<and>
            (\<exists>p. q = [p] \<and> (\<forall>k. p @ replicate k CHR ''x'' \<notin> seen)))"
proof (rule collectApparentNames_loop.raw_induct
         [where P = "\<lambda>D fr an seen q reads y.
                       \<not> (D = example_collab \<and> fr = chain_reader \<and>
                          (\<exists>p. q = [p] \<and> (\<forall>k. p @ replicate k CHR ''x'' \<notin> seen)))",
          OF _ assms], goal_cases)
  case (1 loop' D fr an seen q reads y)
  show ?case
  proof
    assume inv: "D = example_collab \<and> fr = chain_reader \<and>
                 (\<exists>p. q = [p] \<and> (\<forall>k. p @ replicate k CHR ''x'' \<notin> seen))"
    then obtain p where q: "q = [p]" and far: "\<forall>k. p @ replicate k CHR ''x'' \<notin> seen" by blast
    from far[rule_format, of 0] have unseen: "p \<notin> seen" by simp
    obtain bf where bf: "chain_reader p = Some bf" by (simp add: chain_reader_def)
    have next_far: "\<forall>k. (p @ ''x'') @ replicate k CHR ''x'' \<notin> insert p seen"
    proof
      fix k
      have "(p @ ''x'') @ replicate k CHR ''x'' = p @ replicate (Suc k) CHR ''x''" by simp
      moreover have "p @ replicate (Suc k) CHR ''x'' \<noteq> p" by simp
      ultimately show "(p @ ''x'') @ replicate k CHR ''x'' \<notin> insert p seen"
        using far[rule_format, of "Suc k"] by (simp del: replicate_Suc)
    qed
    have "loop' D fr (an ++ fst (collectApparentNamesAndIncludes D bf)) (insert p seen)
            [p @ ''x''] (reads @ [p]) = Some y"
      using 1(2) inv q unseen bf chain_includes[OF bf] by (simp add: split_beta)
    from 1(1)[OF this] show False using inv next_far by blast
  qed
qed

lemma chain_reader_diverges:
  "collectApparentNames_trace example_collab chain_reader relPath = None"
proof (cases "collectApparentNames_trace example_collab chain_reader relPath")
  case None
  then show ?thesis .
next
  case (Some y)
  from chain_loop_never_returns[OF Some[unfolded collectApparentNames_trace_def]]
  show ?thesis by simp
qed

text \<open>
  Claim C9.  When the reader does not have a path the traversal can get to,
  the root or a path included, through any number of files, from it,
  \<open>collectApparentNames\<close> returns, and what it returns is nil.
\<close>

theorem collectApparentNames_absent_fragment:
  assumes "reached D fileReader relPath p" and "fileReader p = None"
  shows "collectApparentNames D fileReader relPath = Some None"
  using collectApparentNames_trace_absent[OF assms]
  by (auto simp: collectApparentNames_def)

lemma missing_reader_collect:
  "missing_reader ''MODULE.bazel'' = Some bf \<Longrightarrow>
   snd (collectApparentNamesAndIncludes example_collab bf) = [''//:gone.MODULE.bazel'']"
  by (auto simp: missing_reader_def collectApparentNamesAndIncludes_def
        collectApparentNamesAndIncludes_step_def example_Rules_def example_AttrString_def
        example_Kind_def List.map_filter_def Let_def)

theorem collectApparentNames_absent_fragment_witness:
  "reached example_collab missing_reader ''MODULE.bazel'' ''gone.MODULE.bazel'' \<and>
   missing_reader ''gone.MODULE.bazel'' = None \<and>
   collectApparentNames example_collab missing_reader ''MODULE.bazel'' = Some None"
proof -
  obtain bf where bf: "missing_reader ''MODULE.bazel'' = Some bf"
    by (simp add: missing_reader_def)
  have "reached example_collab missing_reader ''MODULE.bazel''
          (includePath example_collab ''//:gone.MODULE.bazel'')"
    by (rule reached.incl[of example_collab missing_reader _ "''MODULE.bazel''" bf, OF reached.root bf])
       (simp add: missing_reader_collect[OF bf])
  then have r: "reached example_collab missing_reader ''MODULE.bazel'' ''gone.MODULE.bazel''"
    by (simp add: includePath_def example_ParseRelative_def example_Join_def)
  have a: "missing_reader ''gone.MODULE.bazel'' = None" by (simp add: missing_reader_def)
  from collectApparentNames_absent_fragment[OF r a] r a show ?thesis by blast
qed

text \<open>
  Claim C8, as amended.  When the paths the traversal can get to are
  finitely many, \<open>collectApparentNames\<close> returns, whatever includes what, and has
  called the reader at most once for each path.  On two files that include each
  other it returns the names of the first overridden by the names of the second,
  after reading each of them once.
\<close>

theorem collectApparentNames_terminates:
  "(finite {p. reached D fileReader relPath p} \<longrightarrow>
      (\<exists>res reads. collectApparentNames_trace D fileReader relPath = Some (res, reads) \<and>
                    collectApparentNames D fileReader relPath = Some res \<and> distinct reads)) \<and>
   (A \<noteq> B \<and> fileReader A = Some fa \<and> fileReader B = Some fb \<and>
    map (includePath D) (snd (collectApparentNamesAndIncludes D fa)) = [B] \<and>
    map (includePath D) (snd (collectApparentNamesAndIncludes D fb)) = [A] \<longrightarrow>
      collectApparentNames_trace D fileReader A =
        Some (Some (fst (collectApparentNamesAndIncludes D fa) ++
                    fst (collectApparentNamesAndIncludes D fb)), [A, B]) \<and>
      collectApparentNames D fileReader A =
        Some (Some (fst (collectApparentNamesAndIncludes D fa) ++
                    fst (collectApparentNamesAndIncludes D fb))))"
proof (intro conjI impI)
  assume "finite {p. reached D fileReader relPath p}"
  from collectApparentNames_trace_terminates[OF this]
  show "\<exists>res reads. collectApparentNames_trace D fileReader relPath = Some (res, reads) \<and>
                     collectApparentNames D fileReader relPath = Some res \<and> distinct reads"
    by (auto simp: collectApparentNames_def)
next
  assume c: "A \<noteq> B \<and> fileReader A = Some fa \<and> fileReader B = Some fb \<and>
    map (includePath D) (snd (collectApparentNamesAndIncludes D fa)) = [B] \<and>
    map (includePath D) (snd (collectApparentNamesAndIncludes D fb)) = [A]"
  then show t: "collectApparentNames_trace D fileReader A =
        Some (Some (fst (collectApparentNamesAndIncludes D fa) ++
                    fst (collectApparentNamesAndIncludes D fb)), [A, B])"
    by (intro collectApparentNames_trace_cycle) simp_all
  show "collectApparentNames D fileReader A =
        Some (Some (fst (collectApparentNamesAndIncludes D fa) ++
                    fst (collectApparentNamesAndIncludes D fb)))"
    by (simp add: collectApparentNames_def t)
qed

lemma cycle_reader_collect:
  "collectApparentNamesAndIncludes example_collab (the (cycle_reader ''MODULE.bazel'')) =
     ([''rules_go'' \<mapsto> ''my_rules_go''], [''//:b.MODULE.bazel''])"
  "collectApparentNamesAndIncludes example_collab (the (cycle_reader ''b.MODULE.bazel'')) =
     ([''rules_cc'' \<mapsto> ''rules_cc''], [''//:MODULE.bazel''])"
  by (simp_all add: cycle_reader_def collectApparentNamesAndIncludes_def
        collectApparentNamesAndIncludes_step_def example_Rules_def example_AttrString_def
        example_Kind_def List.map_filter_def Let_def)

lemma cycle_reader_paths:
  "includePath example_collab ''//:b.MODULE.bazel'' = ''b.MODULE.bazel''"
  "includePath example_collab ''//:MODULE.bazel'' = ''MODULE.bazel''"
  by (simp_all add: includePath_def example_ParseRelative_def example_Join_def)

lemma cycle_reader_reached:
  "reached example_collab cycle_reader ''MODULE.bazel'' p \<Longrightarrow>
   p \<in> {''MODULE.bazel'', ''b.MODULE.bazel''}"
proof (induction rule: reached.induct)
  case root
  then show ?case by simp
next
  case (incl p bf l)
  then show ?case
    using cycle_reader_collect cycle_reader_paths
    by (auto simp: cycle_reader_def split: if_splits)
qed

theorem collectApparentNames_terminates_witness:
  "finite {p. reached example_collab cycle_reader ''MODULE.bazel'' p} \<and>
   (\<exists>res reads. collectApparentNames_trace example_collab cycle_reader ''MODULE.bazel'' =
                   Some (res, reads) \<and> distinct reads) \<and>
   collectApparentNames_trace example_collab cycle_reader ''MODULE.bazel'' =
     Some (Some [''rules_go'' \<mapsto> ''my_rules_go'', ''rules_cc'' \<mapsto> ''rules_cc''],
           [''MODULE.bazel'', ''b.MODULE.bazel''])"
proof -
  let ?A = "''MODULE.bazel''" and ?B = "''b.MODULE.bazel''"
  have "{p. reached example_collab cycle_reader ?A p} \<subseteq> {?A, ?B}"
    using cycle_reader_reached by blast
  then have fin: "finite {p. reached example_collab cycle_reader ?A p}"
    by (rule finite_subset) simp
  have rd: "cycle_reader ?A = Some (the (cycle_reader ?A))"
           "cycle_reader ?B = Some (the (cycle_reader ?B))"
    by (simp_all add: cycle_reader_def)
  have cyc: "?A \<noteq> ?B \<and> cycle_reader ?A = Some (the (cycle_reader ?A)) \<and>
             cycle_reader ?B = Some (the (cycle_reader ?B)) \<and>
             map (includePath example_collab)
               (snd (collectApparentNamesAndIncludes example_collab (the (cycle_reader ?A)))) = [?B] \<and>
             map (includePath example_collab)
               (snd (collectApparentNamesAndIncludes example_collab (the (cycle_reader ?B)))) = [?A]"
    using rd by (simp add: cycle_reader_collect cycle_reader_paths)
  from collectApparentNames_terminates
         [of example_collab cycle_reader ?A ?A ?B "the (cycle_reader ?A)" "the (cycle_reader ?B)"]
       fin cyc
  show ?thesis by (simp add: cycle_reader_collect)
qed

text \<open>
  Claim C8 as stated fails: on \<open>chain_reader\<close>, where every file includes
  another one, the traversal does not return.
\<close>

theorem collectApparentNames_chain_never_returns:
  "collectApparentNames example_collab chain_reader ''MODULE.bazel'' = None"
  by (simp add: collectApparentNames_def chain_reader_diverges)

end
